theory Spec2Isabelle
  imports Main "HOL-Library.AList" "HOL-Library.Char_ord" "HOL-Library.List_Lexorder"
begin

section \<open>Node\<close>

text \<open>
  The dataclass \<open>Node\<close> of \<open>s3ncdu.py\<close>. The field \<open>ch\<close> is a Python dict, which
  keeps its keys unique and in insertion order; it is an association list here, since the
  order is what \<open>sorted\<close> and \<open>all_keys\<close> see. Byte sizes are Python ints.

  The back-reference \<open>par\<close> is not stored. A node of a tree is referred to by the list of
  dict keys that leads to it from the root (the root is \<open>[]\<close>); the parent of the node at
  \<open>ps @ [p]\<close> is the node at \<open>ps\<close>, and the root has no parent. Walking up through
  \<open>par\<close> is walking back along that list.
\<close>

datatype node = Node (name: string) (dir: bool) (size_n: int) (key: string)
  (ch: "(string \<times> node) list")

type_synonym path = "string list"

definition sum_sizes :: "(string \<times> node) list \<Rightarrow> int" where
  "sum_sizes cs = sum_list (map (\<lambda>kc. size_n (snd kc)) cs)"

definition set_size :: "int \<Rightarrow> node \<Rightarrow> node" where
  "set_size s n = Node (name n) (dir n) s (key n) (ch n)"

definition set_ch :: "(string \<times> node) list \<Rightarrow> node \<Rightarrow> node" where
  "set_ch cs n = Node (name n) (dir n) (size_n n) (key n) cs"

definition set_size_key :: "int \<Rightarrow> string \<Rightarrow> node \<Rightarrow> node" where
  "set_size_key s k n = Node (name n) (dir n) s k (ch n)"

text \<open>\<open>Node.all_keys\<close> and \<open>Node.count\<close>.\<close>

fun all_keys :: "node \<Rightarrow> string list" where
  "all_keys (Node nm d s k cs) =
     (if \<not> d then (if k \<noteq> [] then [k] else [])
      else concat (map (\<lambda>kc. all_keys (snd kc)) cs))"

fun count :: "node \<Rightarrow> int" where
  "count (Node nm d s k cs) =
     (if \<not> d then 1 else sum_list (map (\<lambda>kc. count (snd kc)) cs))"

text \<open>The node at a path, if the path leads to one.\<close>

fun get :: "node \<Rightarrow> path \<Rightarrow> node option" where
  "get n [] = Some n"
| "get n (p # ps) = (case map_of (ch n) p of None \<Rightarrow> None | Some c \<Rightarrow> get c ps)"

section \<open>Tree\<close>

text \<open>\<open>Tree.__init__\<close>: the root is \<open>Node("/", dir=True)\<close>.\<close>

definition empty_tree :: node where
  "empty_tree = Node ''/'' True 0 [] []"

text \<open>\<open>key.split("/")\<close>, and the comprehension that drops the empty segments.\<close>

fun split_on :: "char \<Rightarrow> string \<Rightarrow> string list" where
  "split_on d [] = [[]]"
| "split_on d (c # cs) =
     (if c = d then [] # split_on d cs
      else (c # hd (split_on d cs)) # tl (split_on d cs))"

definition parts_of :: "string \<Rightarrow> string list" where
  "parts_of k = filter (\<lambda>p. p \<noteq> []) (split_on CHR ''/'' k)"

text \<open>
  The first loop of \<open>Tree.insert\<close>, as a recursion on the remaining segments; the first
  argument is the loop variable \<open>node\<close>. \<open>leaf\<close> is \<open>i == len(parts) - 1\<close>. A new dict key
  goes to the end of the dict, an existing one keeps its place (\<open>AList.update\<close>). The
  descent \<open>node = node.ch[p]\<close> is the recursive call, whose result is stored back under
  \<open>p\<close>, the child being mutated in place in the source.
\<close>

fun walk :: "node \<Rightarrow> string list \<Rightarrow> string \<Rightarrow> int \<Rightarrow> node" where
  "walk n [] k s = n"
| "walk n (p # ps) k s =
     (let leaf = (ps = []);
          c = (case map_of (ch n) p of
                 None \<Rightarrow> Node p (\<not> leaf) (if leaf then s else 0) (if leaf then k else []) []
               | Some c0 \<Rightarrow> if leaf then set_size_key s k c0 else c0)
      in set_ch (AList.update p (walk c ps k s) (ch n)) n)"

text \<open>
  The second loop of \<open>Tree.insert\<close> (bubble sizes up): from the parent of the last node
  reached to the root, each node's size becomes the sum of its children's. The node the
  path ends at is not touched.
\<close>

fun bubble :: "node \<Rightarrow> string list \<Rightarrow> node" where
  "bubble n [] = n"
| "bubble n (p # ps) =
     (case map_of (ch n) p of
        None \<Rightarrow> n
      | Some c \<Rightarrow>
          (let cs = AList.update p (bubble c ps) (ch n)
           in set_size (sum_sizes cs) (set_ch cs n)))"

definition tree_insert :: "node \<Rightarrow> string \<Rightarrow> int \<Rightarrow> node" where
  "tree_insert t k s = (let parts = parts_of k in bubble (walk t parts k s) parts)"

text \<open>
  \<open>Node.recalc\<close> called on the node at the path: that node and then each of its
  ancestors up to the root, when it is a directory, gets the sum of its children's sizes.
\<close>

fun recalc :: "node \<Rightarrow> path \<Rightarrow> node" where
  "recalc n [] = (if dir n then set_size (sum_sizes (ch n)) n else n)"
| "recalc n (p # ps) =
     (case map_of (ch n) p of
        None \<Rightarrow> n
      | Some c \<Rightarrow>
          (let n1 = set_ch (AList.update p (recalc c ps) (ch n)) n
           in if dir n1 then set_size (sum_sizes (ch n1)) n1 else n1))"

text \<open>Applying a change to the node at a path.\<close>

fun modify :: "node \<Rightarrow> path \<Rightarrow> (node \<Rightarrow> node) \<Rightarrow> node" where
  "modify n [] f = f n"
| "modify n (p # ps) f =
     (case map_of (ch n) p of
        None \<Rightarrow> n
      | Some c \<Rightarrow> set_ch (AList.update p (modify c ps f) (ch n)) n)"

text \<open>
  \<open>Tree.remove\<close>, for a node whose parent is a node of the tree. The source reads
  \<open>node.par\<close> and \<open>node.name\<close> only: the node is given by the path of its parent
  followed by its name, the root (no parent) by \<open>[]\<close>. The name need not be among the
  parent's children any more (a node removed before): that is the guard. A path whose
  parent is not in the tree gives no node and leaves the tree as it is; a node that is
  still held by a parent which is itself no longer in the tree is not given by a path,
  and its removal is the operation \<open>Resum\<close> below.
\<close>

definition tree_remove :: "node \<Rightarrow> path \<Rightarrow> node" where
  "tree_remove t pth =
     (if pth = [] then t
      else (case get t (butlast pth) of
              None \<Rightarrow> t
            | Some par \<Rightarrow>
                if map_of (ch par) (last pth) \<noteq> None
                then recalc (modify t (butlast pth) (\<lambda>n. set_ch (AList.delete (last pth) (ch n)) n))
                       (butlast pth)
                else t))"

text \<open>
  A session of tree operations, starting from the empty tree of \<open>Tree.__init__\<close>, by
  what each call does to the tree under the root. \<open>Insert\<close> is \<open>Tree.insert\<close>. \<open>Remove\<close>
  is \<open>Tree.remove\<close> on a node whose parent is in the tree. \<open>Resum qs\<close> is \<open>Tree.remove\<close>
  on a node that a detached parent still holds: the deletion happens in the detached
  subtree, and \<open>recalc\<close> follows the \<open>par\<close> links upwards, which are never reset; the
  first node on that way that is still in the tree is the node at \<open>qs\<close> (the root at the
  latest), and from there on \<open>recalc\<close> re-sums the tree.
\<close>

datatype op = Insert string int | Remove path | Resum path

fun apply_op :: "node \<Rightarrow> op \<Rightarrow> node" where
  "apply_op t (Insert k s) = tree_insert t k s"
| "apply_op t (Remove pth) = tree_remove t pth"
| "apply_op t (Resum qs) = recalc t qs"

definition run :: "op list \<Rightarrow> node" where
  "run ops = foldl apply_op empty_tree ops"

text \<open>Every node of a tree, the root first.\<close>

fun nodes :: "node \<Rightarrow> node list" where
  "nodes (Node nm d s k cs) = Node nm d s k cs # concat (map (\<lambda>kc. nodes (snd kc)) cs)"

text \<open>
  The size invariant of the specification: every directory's size is the sum of its
  children's sizes, throughout the tree.
\<close>

fun sizes_ok :: "node \<Rightarrow> bool" where
  "sizes_ok (Node nm d s k cs) =
     ((if d then s = sum_sizes cs else True) \<and> list_all (\<lambda>kc. sizes_ok (snd kc)) cs)"

text \<open>
  The key's segments lead to a node of the tree that is a directory.
\<close>

definition ends_at_directory :: "node \<Rightarrow> string \<Rightarrow> bool" where
  "ends_at_directory t k =
     (parts_of k \<noteq> [] \<and> (case get t (parts_of k) of None \<Rightarrow> False | Some m \<Rightarrow> dir m))"

text \<open>Every node that is not a directory carries a non-empty key.\<close>

fun keys_ok :: "node \<Rightarrow> bool" where
  "keys_ok (Node nm d s k cs) = ((d \<or> k \<noteq> []) \<and> list_all (\<lambda>kc. keys_ok (snd kc)) cs)"

text \<open>
  \<open>Node.sorted\<close>. Python's \<open>list.sort\<close> is stable, and with \<open>reverse=True\<close> it keeps
  elements of equal key in their original order: it reverses the list, sorts it
  ascending and reverses the result. \<open>sort_key\<close> is a stable insertion sort. Any \<open>by\<close>
  other than \<open>"size"\<close> sorts by the lower-cased name.

  Names and keys are the UTF-8 encodings of the Python strings, byte by byte; a \<open>/\<close> is
  the byte of a \<open>/\<close> only. The argument \<open>lower\<close> is \<open>str.lower\<close> on them, which the Python
  runtime provides and which follows the Unicode tables: nothing is assumed about it.
  Strings compare byte by byte, a proper prefix first; on UTF-8 this is the order of
  Python's \<open>str\<close>, by code point.
\<close>

definition sorted_nodes :: "(string \<Rightarrow> string) \<Rightarrow> node \<Rightarrow> string \<Rightarrow> node list" where
  "sorted_nodes lower n by =
     (let c = map snd (ch n)
      in if by = ''size'' then rev (sort_key size_n (rev c))
         else sort_key (\<lambda>x. lower (name x)) c)"

text \<open>
  \<open>str.lower\<close> on strings of ASCII characters: \<open>A\<close>..\<open>Z\<close> become \<open>a\<close>..\<open>z\<close>, every other
  character stays. It is the \<open>lower\<close> of the sessions below, whose names are ASCII.
\<close>

definition lower_char :: "char \<Rightarrow> char" where
  "lower_char c =
     (let n = (of_char c :: nat) in if 65 \<le> n \<and> n \<le> 90 then char_of (n + 32) else c)"

definition ascii_lower :: "string \<Rightarrow> string" where
  "ascii_lower s = map lower_char s"

section \<open>Scanner\<close>

text \<open>
  The object store, as far as prefix discovery uses it: for a prefix, the
  \<open>CommonPrefixes\<close> of the answer of \<open>list_objects_v2(Prefix=prefix, Delimiter="/")\<close>
  (the empty list when the answer has none), or the exception the call raises.
\<close>

datatype error = ClientError

type_synonym lister = "string \<Rightarrow> error + string list"

text \<open>
  \<open>asyncio.gather\<close> over the recursive calls: the results in the order of the calls, or
  the exception of a call that raised.
\<close>

fun gather :: "(error + 'a) list \<Rightarrow> error + 'a list" where
  "gather [] = Inr []"
| "gather (r # rs) =
     (case r of
        Inl e \<Rightarrow> Inl e
      | Inr x \<Rightarrow> (case gather rs of Inl e \<Rightarrow> Inl e | Inr xs \<Rightarrow> Inr (x # xs)))"

text \<open>\<open>Scanner._discover\<close>.\<close>

function discover :: "lister \<Rightarrow> string \<Rightarrow> int \<Rightarrow> error + string list" where
  "discover s3 prefix depth =
     (if depth \<le> 0 then Inr [prefix]
      else (case s3 prefix of
              Inl e \<Rightarrow> Inl e
            | Inr common \<Rightarrow>
                if common = [] then Inr [prefix]
                else (case gather (map (\<lambda>cp. discover s3 cp (depth - 1)) common) of
                        Inl e \<Rightarrow> Inl e
                      | Inr results \<Rightarrow> Inr (concat results))))"
  by pat_completeness auto
termination
  by (relation "measure (\<lambda>(s3, prefix, depth). nat depth)") auto

declare discover.simps [simp del]

text \<open>
  \<open>Scanner._split_prefix\<close>, with \<open>string.digits + string.ascii_lowercase\<close> written out,
  and the partitions \<open>Scanner.scan\<close> lists (the value of \<open>prefixes\<close> at line 120).
\<close>

definition split_prefix :: "string \<Rightarrow> string list" where
  "split_prefix prefix = map (\<lambda>c. prefix @ [c]) (''0123456789'' @ ''abcdefghijklmnopqrstuvwxyz'')"

definition scan_prefixes :: "lister \<Rightarrow> error + string list" where
  "scan_prefixes s3 =
     (case discover s3 [] 2 of
        Inl e \<Rightarrow> Inl e
      | Inr prefixes \<Rightarrow>
          Inr (if length prefixes \<le> 1
               then split_prefix (if prefixes \<noteq> [] then hd prefixes else [])
               else prefixes))"

text \<open>
  Three buckets: one whose keys have no delimiter, one with the single top-level
  prefix \<open>data/\<close> and nothing below it, and one with the single top-level prefix \<open>a/\<close>
  and two prefixes below it.
\<close>

definition flat_bucket :: lister where
  "flat_bucket prefix = Inr []"

definition one_prefix_bucket :: lister where
  "one_prefix_bucket prefix = Inr (if prefix = [] then [''data/''] else [])"

definition two_level_bucket :: lister where
  "two_level_bucket prefix =
     Inr (if prefix = [] then [''a/'']
          else if prefix = ''a/'' then [''a/x/'', ''a/y/'']
          else [])"

section \<open>UI\<close>

text \<open>
  The object-store client of the UI (\<open>self.s3\<close>, the field \<open>s3_client\<close> below): \<open>answers i keys\<close> says whether the
  call number \<open>i\<close> (counted from 0) of \<open>delete_objects\<close>, with these keys, returns; when
  it does not, the call raises. \<open>calls\<close> is the list of the key batches sent so far.
\<close>

record client =
  answers :: "nat \<Rightarrow> string list \<Rightarrow> bool"
  calls :: "string list list"

definition delete_objects :: "client \<Rightarrow> string list \<Rightarrow> error option \<times> client" where
  "delete_objects c keys =
     (if answers c (length (calls c)) keys then None else Some ClientError,
      c\<lparr>calls := calls c @ [keys]\<rparr>)"

text \<open>
  The loop \<open>for i in range(0, len(keys), 1000)\<close> of \<open>action_confirm_yes\<close>, the slice
  \<open>keys[i:i + 1000]\<close> being \<open>take 1000 (drop i keys)\<close>. An exception of a call leaves the
  loop (and the action) at once.
\<close>

function delete_batches :: "client \<Rightarrow> string list \<Rightarrow> nat \<Rightarrow> error option \<times> client" where
  "delete_batches c keys i =
     (if i < length keys
      then (case delete_objects c (take 1000 (drop i keys)) of
              (Some e, c') \<Rightarrow> (Some e, c')
            | (None, c') \<Rightarrow> delete_batches c' keys (i + 1000))
      else (None, c))"
  by pat_completeness auto
termination
  by (relation "measure (\<lambda>(c, keys, i). length keys - i)") auto

declare delete_batches.simps [simp del]

text \<open>
  The status line, by its four formats: the totals of \<open>_update_status\<close> (root size and
  root count), the question of \<open>action_delete\<close> (display name, count, size), and the two
  messages of \<open>action_confirm_yes\<close> (number of keys). The rendering of sizes (\<open>hsize\<close>)
  and of the table rows is presentation and is left out.
\<close>

datatype status = Totals int int | Ask_delete string int int | Deleting nat | Deleted nat

text \<open>
  The state of the application. Nodes (\<open>cwd\<close>, the rows \<open>_items\<close>, \<open>_confirm_node\<close>) are
  paths into \<open>ftree\<close>. \<open>cursor_row\<close> is the table's cursor; \<open>running\<close> becomes false when
  the application exits. Every change of the tree is followed by \<open>_refresh\<close>, which
  rebuilds the rows and drops the pending confirmation, so no path outlives the node it
  was taken from.
\<close>

record ui =
  ftree :: node
  s3_client :: client
  cwd :: path
  sort_by :: string
  items :: "path list"
  confirm_node :: "path option"
  cursor_row :: int
  status :: status
  running :: bool

definition update_status :: "ui \<Rightarrow> ui" where
  "update_status st = st\<lparr>status := Totals (size_n (ftree st)) (count (ftree st))\<rparr>"

definition cancel_confirm :: "ui \<Rightarrow> bool \<times> ui" where
  "cancel_confirm st =
     (if confirm_node st \<noteq> None then (True, update_status (st\<lparr>confirm_node := None\<rparr>))
      else (False, st))"

definition sel :: "ui \<Rightarrow> path option" where
  "sel st =
     (let r = cursor_row st
      in if 0 \<le> r \<and> r < int (length (items st)) then Some (items st ! nat r) else None)"

text \<open>\<open>_refresh\<close>; clearing the table puts its cursor on row 0.\<close>

definition refresh :: "(string \<Rightarrow> string) \<Rightarrow> ui \<Rightarrow> ui" where
  "refresh lower st =
     (let st1 = st\<lparr>cursor_row := 0, confirm_node := None\<rparr>;
          st2 = st1\<lparr>items :=
                  (case get (ftree st1) (cwd st1) of
                     None \<Rightarrow> []
                   | Some n \<Rightarrow> map (\<lambda>c. cwd st1 @ [name c]) (sorted_nodes lower n (sort_by st1)))\<rparr>
      in update_status st2)"

text \<open>\<open>UI.__init__\<close> followed by \<open>on_mount\<close>.\<close>

definition init_ui :: "(string \<Rightarrow> string) \<Rightarrow> node \<Rightarrow> client \<Rightarrow> ui" where
  "init_ui lower t c =
     refresh lower \<lparr>ftree = t, s3_client = c, cwd = [], sort_by = ''size'', items = [],
              confirm_node = None, cursor_row = 0, status = Totals 0 0, running = True\<rparr>"

definition on_data_table_row_selected :: "(string \<Rightarrow> string) \<Rightarrow> ui \<Rightarrow> ui" where
  "on_data_table_row_selected lower st =
     (let (cancelled, st1) = cancel_confirm st
      in if cancelled then st1
         else (case sel st of
                 None \<Rightarrow> st
               | Some nd \<Rightarrow>
                   (case get (ftree st) nd of
                      None \<Rightarrow> st
                    | Some n \<Rightarrow> if dir n \<and> ch n \<noteq> [] then refresh lower (st\<lparr>cwd := nd\<rparr>) else st)))"

fun first_index :: "('a \<Rightarrow> bool) \<Rightarrow> 'a list \<Rightarrow> nat option" where
  "first_index P [] = None"
| "first_index P (x # xs) = (if P x then Some 0 else map_option Suc (first_index P xs))"

definition action_go_up :: "(string \<Rightarrow> string) \<Rightarrow> ui \<Rightarrow> ui" where
  "action_go_up lower st =
     (let (cancelled, st1) = cancel_confirm st
      in if cancelled then st1
         else if cwd st = [] then st
         else (let nm = last (cwd st);
                   st2 = refresh lower (st\<lparr>cwd := butlast (cwd st)\<rparr>)
               in (case first_index (\<lambda>item. last item = nm) (items st2) of
                     None \<Rightarrow> st2
                   | Some i \<Rightarrow> st2\<lparr>cursor_row := int i\<rparr>)))"

definition action_delete :: "ui \<Rightarrow> ui" where
  "action_delete st =
     (let (cancelled, st1) = cancel_confirm st
      in if cancelled then st1
         else (case sel st of
                 None \<Rightarrow> st
               | Some nd \<Rightarrow>
                   (case get (ftree st) nd of
                      None \<Rightarrow> st
                    | Some n \<Rightarrow>
                        st\<lparr>confirm_node := Some nd,
                           status := Ask_delete (name n @ (if dir n then ''/'' else []))
                                       (count n) (size_n n)\<rparr>)))"

text \<open>
  \<open>action_confirm_yes\<close>. The first component of the result is the exception that left
  the action, if one did; the state is the one reached at that point. The timer that
  restores the totals two seconds later is left out.
\<close>

definition action_confirm_yes :: "(string \<Rightarrow> string) \<Rightarrow> ui \<Rightarrow> error option \<times> ui" where
  "action_confirm_yes lower st =
     (case confirm_node st of
        None \<Rightarrow> (None, st)
      | Some nd \<Rightarrow>
          (case get (ftree st) nd of
             None \<Rightarrow> (None, st)
           | Some n \<Rightarrow>
               (let keys = all_keys n;
                    st1 = st\<lparr>status := Deleting (length keys)\<rparr>
                in (case delete_batches (s3_client st1) keys 0 of
                      (Some e, c) \<Rightarrow> (Some e, st1\<lparr>s3_client := c\<rparr>)
                    | (None, c) \<Rightarrow>
                        (let st2 = st1\<lparr>s3_client := c, ftree := tree_remove (ftree st1) nd\<rparr>;
                             cur = cursor_row st2;
                             st3 = refresh lower st2;
                             st4 = (if items st3 \<noteq> []
                                    then st3\<lparr>cursor_row := min cur (int (length (items st3)) - 1)\<rparr>
                                    else st3)
                         in (None, st4\<lparr>status := Deleted (length keys)\<rparr>))))))"

definition action_confirm_cancel :: "ui \<Rightarrow> ui" where
  "action_confirm_cancel st = snd (cancel_confirm st)"

definition action_sort_size :: "(string \<Rightarrow> string) \<Rightarrow> ui \<Rightarrow> ui" where
  "action_sort_size lower st =
     (let (cancelled, st1) = cancel_confirm st
      in if cancelled then st1 else refresh lower (st\<lparr>sort_by := ''size''\<rparr>))"

definition action_sort_name :: "(string \<Rightarrow> string) \<Rightarrow> ui \<Rightarrow> ui" where
  "action_sort_name lower st =
     (let (cancelled, st1) = cancel_confirm st
      in if cancelled then st1 else refresh lower (st\<lparr>sort_by := ''name''\<rparr>))"

text \<open>
  \<open>quit\<close> has no method in \<open>UI\<close>: it is the action the application class of the toolkit
  provides, which exits the application.
\<close>

definition action_quit :: "ui \<Rightarrow> ui" where
  "action_quit st = st\<lparr>running := False\<rparr>"

text \<open>
  \<open>UI.BINDINGS\<close>, and the dispatch of an input by the toolkit. A key goes to the action
  bound to it; an exception that leaves the action stops the application. A key with no
  binding reaches no code of the program: it goes to the table, whose own bindings (the
  cursor keys) move the cursor and change nothing else of the state; \<open>table k st\<close> is
  the row the cursor is on after the key \<open>k\<close>, and nothing is assumed about it. The
  selection of a table row (enter) is an event of its own, sent by the table.
\<close>

datatype action = Quit | Delete | Sort_size | Sort_name | Go_up | Confirm_yes | Confirm_cancel

definition BINDINGS :: "(string \<times> action) list" where
  "BINDINGS =
     [(''q'', Quit), (''d'', Delete), (''s'', Sort_size), (''n'', Sort_name),
      (''backspace'', Go_up), (''y'', Confirm_yes), (''escape'', Confirm_cancel)]"

fun run_action :: "(string \<Rightarrow> string) \<Rightarrow> action \<Rightarrow> ui \<Rightarrow> error option \<times> ui" where
  "run_action lower Quit st = (None, action_quit st)"
| "run_action lower Delete st = (None, action_delete st)"
| "run_action lower Sort_size st = (None, action_sort_size lower st)"
| "run_action lower Sort_name st = (None, action_sort_name lower st)"
| "run_action lower Go_up st = (None, action_go_up lower st)"
| "run_action lower Confirm_yes st = action_confirm_yes lower st"
| "run_action lower Confirm_cancel st = (None, action_confirm_cancel st)"

datatype event = Key string | Row_selected

fun handle ::
  "(string \<Rightarrow> string) \<Rightarrow> (string \<Rightarrow> ui \<Rightarrow> int) \<Rightarrow> event \<Rightarrow> ui \<Rightarrow> error option \<times> ui" where
  "handle lower table (Key k) st =
     (case map_of BINDINGS k of
        None \<Rightarrow> (None, st\<lparr>cursor_row := table k st\<rparr>)
      | Some a \<Rightarrow>
          (case run_action lower a st of
             (Some e, st') \<Rightarrow> (Some e, st'\<lparr>running := False\<rparr>)
           | (None, st') \<Rightarrow> (None, st')))"
| "handle lower table Row_selected st = (None, on_data_table_row_selected lower st)"

text \<open>
  The cursor keys of the table in the sessions below: \<open>down\<close> and \<open>up\<close> move the cursor by
  one row within the rows, every other key leaves it.
\<close>

definition cursor_keys :: "string \<Rightarrow> ui \<Rightarrow> int" where
  "cursor_keys k st =
     (if k = ''down'' \<and> cursor_row st + 1 < int (length (items st)) then cursor_row st + 1
      else if k = ''up'' \<and> 0 < cursor_row st then cursor_row st - 1
      else cursor_row st)"

text \<open>
  A small session: the tree of two inserts, a client whose calls all return, the
  application after mounting, and after \<open>d\<close> has been pressed on the first row.
\<close>

definition always_ok :: "nat \<Rightarrow> string list \<Rightarrow> bool" where
  "always_ok i keys = True"

definition demo_ui :: ui where
  "demo_ui = init_ui ascii_lower (run [Insert ''a/b'' 3, Insert ''c'' 5]) \<lparr>answers = always_ok, calls = []\<rparr>"

definition confirming_ui :: ui where
  "confirming_ui = snd (handle ascii_lower cursor_keys (Key ''d'') demo_ui)"

text \<open>
  The batches as the specification words them: the key list cut, in order, into pieces
  of at most \<open>n\<close> keys, every piece but the last of exactly \<open>n\<close>. And the calls they
  stand for, one per batch, up to the first that raises.
\<close>

function batches_of :: "nat \<Rightarrow> 'a list \<Rightarrow> 'a list list" where
  "batches_of n xs = (if n = 0 \<or> xs = [] then [] else take n xs # batches_of n (drop n xs))"
  by pat_completeness auto
termination
  by (relation "measure (\<lambda>(n, xs). length xs)") auto

declare batches_of.simps [simp del]

fun issue :: "client \<Rightarrow> string list list \<Rightarrow> error option \<times> client" where
  "issue c [] = (None, c)"
| "issue c (b # bs) =
     (case delete_objects c b of
        (Some e, c') \<Rightarrow> (Some e, c')
      | (None, c') \<Rightarrow> issue c' bs)"

text \<open>
  A large directory: the tree with the one directory \<open>d\<close> of \<open>n\<close> objects \<open>d/f0\<close>,
  \<open>d/f1\<close>, ... of one byte each (\<open>dec\<close> writes a number in decimal), a client whose
  third call raises, and the application with the deletion of \<open>d\<close> (2500 objects)
  waiting for its confirmation.
\<close>

function dec :: "nat \<Rightarrow> string" where
  "dec n =
     (if n < 10 then [''0123456789'' ! n]
      else dec (n div 10) @ [''0123456789'' ! (n mod 10)])"
  by pat_completeness auto
termination
  by (relation "measure (\<lambda>n. n)") auto

declare dec.simps [simp del]

definition big_leaf :: "nat \<Rightarrow> string \<times> node" where
  "big_leaf i = (''f'' @ dec i, Node (''f'' @ dec i) False 1 (''d/f'' @ dec i) [])"

definition big_dir :: "nat \<Rightarrow> node" where
  "big_dir n = Node ''d'' True (int n) [] (map big_leaf [0..<n])"

definition big_tree :: "nat \<Rightarrow> node" where
  "big_tree n = Node ''/'' True (int n) [] [(''d'', big_dir n)]"

definition third_fails :: "nat \<Rightarrow> string list \<Rightarrow> bool" where
  "third_fails i keys = (i \<noteq> 2)"

definition big_confirming :: "(nat \<Rightarrow> string list \<Rightarrow> bool) \<Rightarrow> ui" where
  "big_confirming a =
     snd (handle ascii_lower cursor_keys (Key ''d'')
       (init_ui ascii_lower (big_tree 2500) \<lparr>answers = a, calls = []\<rparr>))"

text \<open>
  Trees compared with the order of children disregarded: \<open>norm\<close> sorts every children
  dict by its keys, all the way down, and two trees are the same when their normal
  forms are equal (same nodes, names, flags, sizes, keys and parent/child structure).
\<close>

fun norm :: "node \<Rightarrow> node" where
  "norm (Node nm d s k cs) =
     Node nm d s k (sort_key fst (map (\<lambda>kc. (fst kc, norm (snd kc))) cs))"

definition same_tree :: "node \<Rightarrow> node \<Rightarrow> bool" where
  "same_tree a b = (norm a = norm b)"

text \<open>
  What every tree built by the program satisfies, for the node at path \<open>P\<close>: the keys of
  a children dict are distinct, each child is stored under its own name, and the key of
  a node that is not a directory splits into the path of that node.
\<close>

fun wf :: "path \<Rightarrow> node \<Rightarrow> bool" where
  "wf P (Node nm d s k cs) =
     ((d \<or> parts_of k = P) \<and> distinct (map fst cs) \<and>
      list_all (\<lambda>kc. name (snd kc) = fst kc \<and> wf (P @ [fst kc]) (snd kc)) cs)"

text \<open>
  The node at the end of the path and all nodes above it have the sum of their
  children's sizes as size.
\<close>

fun sums_along :: "node \<Rightarrow> path \<Rightarrow> bool" where
  "sums_along n [] = (size_n n = sum_sizes (ch n))"
| "sums_along n (p # ps) =
     (size_n n = sum_sizes (ch n) \<and>
      (case map_of (ch n) p of None \<Rightarrow> False | Some c \<Rightarrow> sums_along c ps))"

text \<open>
  The leaves below a node (the node itself included): the nodes that are not
  directories and have no children.
\<close>

fun leaf_nodes :: "node \<Rightarrow> nat" where
  "leaf_nodes (Node nm d s k cs) =
     (if cs = [] then (if d then 0 else 1) else sum_list (map (\<lambda>kc. leaf_nodes (snd kc)) cs))"

text \<open>
  A directory whose objects lie below an object: the tree of the key \<open>d/x\<close> (of no
  bytes) and of the \<open>n\<close> keys \<open>d/x/f0\<close>, \<open>d/x/f1\<close>, ... of one byte each, inserted in this
  order, which is the order a listing returns them in. The node \<open>x\<close> is the object
  \<open>d/x\<close>, not a directory, and the later keys are its children. And the application
  with the deletion of \<open>d\<close> waiting for its confirmation, for 2500 such keys and a
  client whose calls all return.
\<close>

definition deep_leaf :: "nat \<Rightarrow> string \<times> node" where
  "deep_leaf i = (''f'' @ dec i, Node (''f'' @ dec i) False 1 (''d/x/f'' @ dec i) [])"

definition deep_obj :: "nat \<Rightarrow> node" where
  "deep_obj n = Node ''x'' False (int n) ''d/x'' (map deep_leaf [0..<n])"

definition deep_dir :: "nat \<Rightarrow> node" where
  "deep_dir n = Node ''d'' True (int n) [] [(''x'', deep_obj n)]"

definition deep_tree :: "nat \<Rightarrow> node" where
  "deep_tree n = Node ''/'' True (int n) [] [(''d'', deep_dir n)]"

definition deep_confirming :: ui where
  "deep_confirming =
     snd (handle ascii_lower cursor_keys (Key ''d'')
       (init_ui ascii_lower (deep_tree 2500) \<lparr>answers = always_ok, calls = []\<rparr>))"

section \<open>Properties of the tree\<close>

subsection \<open>Keys without segments\<close>

lemma split_on_nonempty: "split_on d k \<noteq> []"
  by (induction k) simp_all

lemma parts_of_slashes: "parts_of k = [] \<longleftrightarrow> set k \<subseteq> {CHR ''/''}"
proof (induction k)
  case Nil
  show ?case by (simp add: parts_of_def)
next
  case (Cons c cs)
  obtain w ws where w: "split_on CHR ''/'' cs = w # ws"
    using split_on_nonempty [of "CHR ''/''" cs] by (cases "split_on CHR ''/'' cs") auto
  show ?case
  proof (cases "c = CHR ''/''")
    case True
    then show ?thesis using Cons by (simp add: parts_of_def)
  next
    case False
    then show ?thesis using w by (simp add: parts_of_def)
  qed
qed

text \<open>
  C9. A key with no non-empty segment (the empty key, \<open>/\<close>, \<open>//\<close>, any run of
  slashes) leaves the tree as it is: both loops of \<open>Tree.insert\<close> run zero times, since
  the root has no parent.
\<close>

theorem insert_no_segments_unchanged:
  "parts_of [] = [] \<and> parts_of ''/'' = [] \<and> parts_of ''//'' = [] \<and>
   (set k \<subseteq> {CHR ''/''} \<longrightarrow> tree_insert t k s = t)"
  by (simp add: parts_of_slashes [symmetric] tree_insert_def) (simp add: parts_of_def)

theorem insert_no_segments_unchanged_witness:
  "set ''//'' \<subseteq> {CHR ''/''} \<and>
   tree_insert (run [Insert ''a/b.txt'' 3, Insert ''c'' 1]) ''//'' 7
     = run [Insert ''a/b.txt'' 3, Insert ''c'' 1]"
  using insert_no_segments_unchanged [of "''//''" "run [Insert ''a/b.txt'' 3, Insert ''c'' 1]" 7]
  by simp

subsection \<open>Removing a node that is not attached\<close>

text \<open>
  C10. \<open>Tree.remove\<close> on the root (no parent), or on a node whose name is not a key of
  its parent's children, returns the tree as it is. So does \<open>tree_remove\<close> on a path that
  gives no node because nothing is at the place of its parent; this says nothing about
  a node that a detached parent still holds, whose removal is \<open>Resum\<close> and can change the
  sizes. The model has no error value for \<open>remove\<close>: the source guards its only \<open>del\<close> by
  the membership test and \<open>recalc\<close> raises nowhere.
\<close>

theorem remove_unattached_unchanged:
  "pth = [] \<or> get t (butlast pth) = None \<or>
     (\<exists>par. get t (butlast pth) = Some par \<and> map_of (ch par) (last pth) = None)
   \<Longrightarrow> tree_remove t pth = t"
  by (auto simp: tree_remove_def)

theorem remove_unattached_unchanged_witness:
  "tree_remove (run [Insert ''a/b.txt'' 3]) [] = run [Insert ''a/b.txt'' 3] \<and>
   get (run [Insert ''a/b.txt'' 3]) [''a''] \<noteq> None \<and>
   map_of (ch (the (get (run [Insert ''a/b.txt'' 3]) [''a'']))) ''zz'' = None \<and>
   tree_remove (run [Insert ''a/b.txt'' 3]) [''a'', ''zz''] = run [Insert ''a/b.txt'' 3] \<and>
   get (run [Insert ''a/b.txt'' 3]) [''x''] = None \<and>
   tree_remove (run [Insert ''a/b.txt'' 3]) [''x'', ''y''] = run [Insert ''a/b.txt'' 3]"
proof -
  have t: "run [Insert ''a/b.txt'' 3]
      = Node ''/'' True 3 [] [(''a'', Node ''a'' True 3 [] [(''b.txt'', Node ''b.txt'' False 3 ''a/b.txt'' [])])]"
    by (simp add: run_def tree_insert_def parts_of_def empty_tree_def set_ch_def set_size_def
        sum_sizes_def)
  have 1: "tree_remove (run [Insert ''a/b.txt'' 3]) [] = run [Insert ''a/b.txt'' 3]"
    using remove_unattached_unchanged [of "[]" "run [Insert ''a/b.txt'' 3]"] by simp
  have 2: "tree_remove (run [Insert ''a/b.txt'' 3]) [''a'', ''zz''] = run [Insert ''a/b.txt'' 3]"
    using remove_unattached_unchanged [of "[''a'', ''zz'']" "run [Insert ''a/b.txt'' 3]"]
    by (simp add: t)
  have 3: "tree_remove (run [Insert ''a/b.txt'' 3]) [''x'', ''y''] = run [Insert ''a/b.txt'' 3]"
    using remove_unattached_unchanged [of "[''x'', ''y'']" "run [Insert ''a/b.txt'' 3]"]
    by (simp add: t)
  show ?thesis using 1 2 3 by (simp add: t)
qed

text \<open>
  A node that a detached parent still holds. After \<open>insert("x/y/z", 1)\<close>, the removal of
  \<open>x/y\<close> and \<open>insert("x", 5)\<close>, the node \<open>z\<close> is still a child of the detached \<open>y\<close>, whose
  parent \<open>x\<close> is in the tree. Removing \<open>z\<close> re-sums \<open>x\<close> and the root: their sizes go from 5
  to 0.
\<close>

lemma remove_below_detached_parent:
  "run [Insert ''x/y/z'' 1, Remove [''x'', ''y''], Insert ''x'' 5]
     = Node ''/'' True 5 [] [(''x'', Node ''x'' True 5 ''x'' [])] \<and>
   run [Insert ''x/y/z'' 1, Remove [''x'', ''y''], Insert ''x'' 5, Resum [''x'']]
     = Node ''/'' True 0 [] [(''x'', Node ''x'' True 0 ''x'' [])]"
  by (simp add: run_def tree_insert_def tree_remove_def parts_of_def empty_tree_def set_ch_def
      set_size_def set_size_key_def sum_sizes_def)

subsection \<open>Leaf counts and key lists\<close>

lemma keys_ok_iff:
  "keys_ok n = ((dir n \<or> key n \<noteq> []) \<and> (\<forall>kc\<in>set (ch n). keys_ok (snd kc)))"
  by (cases n) (simp add: list_all_iff)

lemma set_update_subset: "set (AList.update p v cs) \<subseteq> Set.insert (p, v) (set cs)"
  by (induction cs) auto

lemma set_delete_subset: "set (AList.delete p cs) \<subseteq> set cs"
  by (auto simp: AList.delete_eq)

lemma keys_ok_set_ch:
  "keys_ok n \<Longrightarrow> \<forall>kc\<in>set cs. keys_ok (snd kc) \<Longrightarrow> keys_ok (set_ch cs n)"
  by (cases n) (simp add: set_ch_def list_all_iff)

lemma keys_ok_set_size: "keys_ok n \<Longrightarrow> keys_ok (set_size s n)"
  by (cases n) (simp add: set_size_def)

lemma keys_ok_update:
  "keys_ok n \<Longrightarrow> keys_ok c \<Longrightarrow> keys_ok (set_ch (AList.update p c (ch n)) n)"
proof (rule keys_ok_set_ch)
  assume n: "keys_ok n" and c: "keys_ok c"
  show "keys_ok n" by (rule n)
  show "\<forall>kc\<in>set (AList.update p c (ch n)). keys_ok (snd kc)"
  proof
    fix kc assume "kc \<in> set (AList.update p c (ch n))"
    then have "kc = (p, c) \<or> kc \<in> set (ch n)" using set_update_subset by fastforce
    then show "keys_ok (snd kc)" using n c keys_ok_iff [of n] by auto
  qed
qed

lemma keys_ok_child: "keys_ok n \<Longrightarrow> map_of (ch n) p = Some c \<Longrightarrow> keys_ok c"
proof -
  assume n: "keys_ok n" and m: "map_of (ch n) p = Some c"
  from m have "(p, c) \<in> set (ch n)" by (rule map_of_SomeD)
  with n keys_ok_iff [of n] have "keys_ok (snd (p, c))" by blast
  then show "keys_ok c" by simp
qed

lemma keys_ok_walk: "k \<noteq> [] \<Longrightarrow> keys_ok n \<Longrightarrow> keys_ok (walk n ps k s)"
proof (induction ps arbitrary: n)
  case Nil
  then show ?case by simp
next
  case (Cons p ps)
  let ?c = "(case map_of (ch n) p of
                 None \<Rightarrow> Node p (ps \<noteq> []) (if ps = [] then s else 0) (if ps = [] then k else []) []
               | Some c0 \<Rightarrow> if ps = [] then set_size_key s k c0 else c0)"
  have "keys_ok ?c"
  proof (cases "map_of (ch n) p")
    case None
    then show ?thesis using Cons.prems by simp
  next
    case (Some c0)
    then have "keys_ok c0" using Cons.prems keys_ok_child by blast
    then show ?thesis using Some Cons.prems
      by (cases c0) (simp add: set_size_key_def)
  qed
  then have "keys_ok (walk ?c ps k s)" using Cons.IH Cons.prems by blast
  then show ?case using Cons.prems by (simp add: Let_def keys_ok_update)
qed

lemma keys_ok_bubble: "keys_ok n \<Longrightarrow> keys_ok (bubble n ps)"
proof (induction ps arbitrary: n)
  case Nil
  then show ?case by simp
next
  case (Cons p ps)
  show ?case
  proof (cases "map_of (ch n) p")
    case None
    then show ?thesis using Cons.prems by simp
  next
    case (Some c)
    then have "keys_ok (bubble c ps)" using Cons keys_ok_child by blast
    then show ?thesis using Some Cons.prems
      by (simp add: Let_def keys_ok_set_size keys_ok_update)
  qed
qed

lemma parts_of_nonempty: "parts_of k \<noteq> [] \<Longrightarrow> k \<noteq> []"
  by (auto simp: parts_of_def)

lemma keys_ok_insert: "keys_ok t \<Longrightarrow> keys_ok (tree_insert t k s)"
proof (cases "parts_of k = []")
  case True
  assume "keys_ok t"
  then show ?thesis using True by (simp add: tree_insert_def)
next
  case False
  assume "keys_ok t"
  then show ?thesis using False parts_of_nonempty
    by (simp add: tree_insert_def Let_def keys_ok_walk keys_ok_bubble)
qed

lemma keys_ok_recalc: "keys_ok n \<Longrightarrow> keys_ok (recalc n ps)"
proof (induction ps arbitrary: n)
  case Nil
  then show ?case by (simp add: keys_ok_set_size)
next
  case (Cons p ps)
  show ?case
  proof (cases "map_of (ch n) p")
    case None
    then show ?thesis using Cons.prems by simp
  next
    case (Some c)
    then have "keys_ok (recalc c ps)" using Cons keys_ok_child by blast
    then show ?thesis using Some Cons.prems
      by (simp add: Let_def keys_ok_set_size keys_ok_update)
  qed
qed

lemma keys_ok_modify:
  "(\<And>m. keys_ok m \<Longrightarrow> keys_ok (f m)) \<Longrightarrow> keys_ok n \<Longrightarrow> keys_ok (modify n ps f)"
proof (induction ps arbitrary: n)
  case Nil
  then show ?case by simp
next
  case (Cons p ps)
  show ?case
  proof (cases "map_of (ch n) p")
    case None
    then show ?thesis using Cons.prems by simp
  next
    case (Some c)
    then have "keys_ok (modify c ps f)" using Cons keys_ok_child by blast
    then show ?thesis using Some Cons.prems
      by (simp add: keys_ok_update)
  qed
qed

lemma keys_ok_delete: "keys_ok n \<Longrightarrow> keys_ok (set_ch (AList.delete p (ch n)) n)"
  using keys_ok_iff [of n] set_delete_subset [of p "ch n"]
  by (intro keys_ok_set_ch) auto

lemma keys_ok_remove: "keys_ok t \<Longrightarrow> keys_ok (tree_remove t pth)"
  by (simp add: tree_remove_def keys_ok_recalc keys_ok_modify keys_ok_delete split: option.splits)

lemma keys_ok_apply_op: "keys_ok t \<Longrightarrow> keys_ok (apply_op t x)"
  by (cases x) (simp_all add: keys_ok_insert keys_ok_remove keys_ok_recalc)

lemma keys_ok_foldl: "keys_ok t \<Longrightarrow> keys_ok (foldl apply_op t ops)"
  by (induction ops arbitrary: t) (simp_all add: keys_ok_apply_op)

lemma keys_ok_run: "keys_ok (run ops)"
  by (simp add: run_def keys_ok_foldl empty_tree_def)

lemma keys_ok_nodes: "keys_ok t \<Longrightarrow> n \<in> set (nodes t) \<Longrightarrow> keys_ok n"
proof (induction t arbitrary: n)
  case (Node nm d s k cs)
  then show ?case
    by (auto simp: list_all_iff)
qed

lemma count_all_keys: "keys_ok n \<Longrightarrow> count n = int (length (all_keys n))"
proof (induction n)
  case (Node nm d s k cs)
  have *: "map (\<lambda>kc. count (snd kc)) cs = map (\<lambda>kc. int (length (all_keys (snd kc)))) cs"
    using Node by (auto simp: list_all_iff intro: snds.intros)
  have "sum_list (map (\<lambda>kc. int (length (all_keys (snd kc)))) cs)
      = int (sum_list (map (\<lambda>kc. length (all_keys (snd kc))) cs))"
    using sum_list_of_nat [of "map (\<lambda>kc. length (all_keys (snd kc))) cs", where ?'a = int]
    by (simp add: comp_def)
  with arg_cong [OF *, of sum_list] have "sum_list (map (\<lambda>kc. count (snd kc)) cs)
      = int (sum_list (map (\<lambda>kc. length (all_keys (snd kc))) cs))"
    by (rule trans)
  then show ?case using Node.prems
    by (auto simp: length_concat comp_def)
qed

text \<open>
  C6. In every tree reached from the empty tree by inserts (and removes), each node's
  \<open>count\<close> is the length of its \<open>all_keys\<close>, and a node that is not a directory counts 1.
  What makes it true is that \<open>insert\<close> never stores an empty key: a key with a segment
  is not empty.
\<close>

theorem count_is_number_of_keys:
  "n \<in> set (nodes (run ops)) \<Longrightarrow>
     count n = int (length (all_keys n)) \<and> (\<not> dir n \<longrightarrow> count n = 1)"
proof -
  assume n: "n \<in> set (nodes (run ops))"
  have "keys_ok n" using keys_ok_run n by (rule keys_ok_nodes)
  then have "count n = int (length (all_keys n))" by (rule count_all_keys)
  moreover have "\<not> dir n \<longrightarrow> count n = 1" by (cases n) simp
  ultimately show ?thesis by simp
qed

theorem count_is_number_of_keys_witness:
  "Node ''a'' True 7 [] [(''b.txt'', Node ''b.txt'' False 3 ''a/b.txt'' []),
                         (''c'', Node ''c'' False 4 ''a/c'' [])]
     \<in> set (nodes (run [Insert ''a/b.txt'' 3, Insert ''a/c'' 4, Insert ''d'' 1])) \<and>
   count (Node ''a'' True 7 [] [(''b.txt'', Node ''b.txt'' False 3 ''a/b.txt'' []),
                                (''c'', Node ''c'' False 4 ''a/c'' [])]) = 2 \<and>
   Node ''d'' False 1 ''d'' []
     \<in> set (nodes (run [Insert ''a/b.txt'' 3, Insert ''a/c'' 4, Insert ''d'' 1])) \<and>
   count (Node ''d'' False 1 ''d'' []) = int (length (all_keys (Node ''d'' False 1 ''d'' [])))"
proof -
  let ?ops = "[Insert ''a/b.txt'' 3, Insert ''a/c'' 4, Insert ''d'' 1]"
  let ?a = "Node ''a'' True 7 [] [(''b.txt'', Node ''b.txt'' False 3 ''a/b.txt'' []),
                                  (''c'', Node ''c'' False 4 ''a/c'' [])]"
  let ?d = "Node ''d'' False 1 ''d'' []"
  have t: "run ?ops = Node ''/'' True 8 [] [(''a'', ?a), (''d'', ?d)]"
    by (simp add: run_def tree_insert_def parts_of_def empty_tree_def set_ch_def set_size_def
        sum_sizes_def)
  have a: "?a \<in> set (nodes (run ?ops))" by (simp add: t)
  have d: "?d \<in> set (nodes (run ?ops))" by (simp add: t)
  show ?thesis
    using count_is_number_of_keys [OF a] count_is_number_of_keys [OF d] a d by simp
qed

section \<open>Properties of the listing order\<close>

lemma rev_sort_desc: "sorted_wrt (\<lambda>x y. f y \<le> f x) (rev (sort_key f xs))"
  using sorted_sort_key [of f xs] by (simp add: sorted_wrt_rev sorted_map)

lemma rev_sort_stable:
  "filter (\<lambda>x. f x = k) (rev (sort_key f (rev xs))) = filter (\<lambda>x. f x = k) xs"
  by (simp add: rev_filter [symmetric] sort_key_stable)

text \<open>
  C4, as the code has it. \<open>sorted("size")\<close> returns the children by size descending,
  and children of equal size in the order of the children dict (the order of their first
  insertion): the name is not a secondary key. \<open>sorted("name")\<close> returns them by
  lower-cased name ascending, names with the same lower-cased form in dict order,
  whatever \<open>str.lower\<close> does to a name. Each of the two pairs of facts determines the
  result: it is a rearrangement of the children (the filter equations, over all \<open>k\<close>),
  ordered by the key, stable.
\<close>

theorem sorted_orders:
  "sorted_wrt (\<lambda>x y. size_n y \<le> size_n x) (sorted_nodes lower n ''size'') \<and>
   (\<forall>k. filter (\<lambda>x. size_n x = k) (sorted_nodes lower n ''size'')
        = filter (\<lambda>x. size_n x = k) (map snd (ch n))) \<and>
   sorted (map (\<lambda>x. lower (name x)) (sorted_nodes lower n ''name'')) \<and>
   (\<forall>k. filter (\<lambda>x. lower (name x) = k) (sorted_nodes lower n ''name'')
        = filter (\<lambda>x. lower (name x) = k) (map snd (ch n)))"
  by (simp add: sorted_nodes_def rev_sort_desc rev_sort_stable sort_key_stable)

text \<open>
  C4 as stated fails: after \<open>insert("b", 1)\<close>, \<open>insert("a", 1)\<close> the two children tie on
  size and \<open>sorted("size")\<close> returns \<open>b\<close> before \<open>a\<close>, whatever \<open>str.lower\<close> is.
\<close>

theorem size_ties_keep_dict_order:
  "(\<forall>lower. map name (sorted_nodes lower (run [Insert ''b'' 1, Insert ''a'' 1]) ''size'')
      = [''b'', ''a'']) \<and>
   map size_n (sorted_nodes ascii_lower (run [Insert ''b'' 1, Insert ''a'' 1]) ''size'') = [1, 1] \<and>
   ascii_lower ''a'' = ''a'' \<and> ascii_lower ''b'' = ''b'' \<and> ''a'' < ''b''"
  by (simp add: run_def tree_insert_def parts_of_def empty_tree_def set_ch_def set_size_def
        sum_sizes_def sorted_nodes_def ascii_lower_def lower_char_def)

section \<open>Properties of prefix discovery\<close>

lemma discover_0: "discover s3 p 0 = Inr [p]"
  by (simp add: discover.simps)

lemma discover_1:
  "discover s3 p 1 =
     (case s3 p of
        Inl e \<Rightarrow> Inl e
      | Inr common \<Rightarrow> if common = [] then Inr [p] else Inr common)"
proof -
  have g: "gather (map (\<lambda>cp. Inr [cp]) cs) = (Inr (map (\<lambda>cp. [cp]) cs) :: error + string list list)"
    for cs :: "string list"
    by (induction cs) simp_all
  have c: "concat (map (\<lambda>cp. [cp]) cs) = cs" for cs :: "string list"
    by (induction cs) simp_all
  show ?thesis
    by (subst discover.simps) (simp add: discover_0 g c split: sum.splits)
qed

lemma discover_2:
  "discover s3 p 2 =
     (case s3 p of
        Inl e \<Rightarrow> Inl e
      | Inr common \<Rightarrow>
          if common = [] then Inr [p]
          else (case gather (map (\<lambda>cp. discover s3 cp 1) common) of
                  Inl e \<Rightarrow> Inl e
                | Inr results \<Rightarrow> Inr (concat results)))"
  by (subst discover.simps) (simp split: sum.splits)

lemma length_split_prefix: "length (split_prefix base) = 36"
  by (simp add: split_prefix_def)

lemma distinct_split_prefix: "distinct (split_prefix base)"
  by (simp add: split_prefix_def)

text \<open>
  C3 as stated fails: the root listing of \<open>two_level_bucket\<close> returns the one common
  prefix \<open>a/\<close>, discovery goes one level further and finds two partitions, and the
  scanner lists these two, not 36.
\<close>

theorem single_root_prefix_no_fallback:
  "two_level_bucket [] = Inr [''a/''] \<and>
   scan_prefixes two_level_bucket = Inr [''a/x/'', ''a/y/''] \<and>
   scan_prefixes two_level_bucket \<noteq> Inr (split_prefix ''a/'')"
  by (simp add: scan_prefixes_def discover_2 discover_1 two_level_bucket_def split_prefix_def)

text \<open>
  C3, as the code has it. The fallback is taken when the discovery to depth 2 as a
  whole yields at most one partition: when the root listing returns no common prefix
  (base: the empty prefix), when it returns one common prefix under which the listing
  returns at most one (base: the deepest prefix found), and in general whenever
  \<open>_discover\<close> returns at most one prefix. The scanner then lists exactly 36 distinct
  partitions, the base followed by one character of \<open>0-9a-z\<close>. When the root listing
  returns one common prefix under which the listing returns two or more, the scanner
  lists exactly these, without the fallback.
\<close>

theorem fallback_partitions:
  "(s3 [] = Inr [] \<longrightarrow> scan_prefixes s3 = Inr (split_prefix [])) \<and>
   (s3 [] = Inr [cp] \<and> s3 cp = Inr sub \<and> length sub \<le> 1 \<longrightarrow>
      scan_prefixes s3 = Inr (split_prefix (if sub = [] then cp else hd sub))) \<and>
   (s3 [] = Inr [cp] \<and> s3 cp = Inr sub \<and> 2 \<le> length sub \<longrightarrow>
      scan_prefixes s3 = Inr sub) \<and>
   (discover s3 [] 2 = Inr prefixes \<and> length prefixes \<le> 1 \<longrightarrow>
      scan_prefixes s3 = Inr (split_prefix (if prefixes = [] then [] else hd prefixes))) \<and>
   split_prefix base = map (\<lambda>c. base @ [c]) ''0123456789abcdefghijklmnopqrstuvwxyz'' \<and>
   length (split_prefix base) = 36 \<and> distinct (split_prefix base)"
proof -
  have 1: "s3 [] = Inr [] \<longrightarrow> scan_prefixes s3 = Inr (split_prefix [])"
    by (simp add: scan_prefixes_def discover_2)
  have 2: "s3 [] = Inr [cp] \<and> s3 cp = Inr sub \<and> length sub \<le> 1 \<longrightarrow>
      scan_prefixes s3 = Inr (split_prefix (if sub = [] then cp else hd sub))"
    by (cases sub) (auto simp: scan_prefixes_def discover_2 discover_1)
  have 5: "s3 [] = Inr [cp] \<and> s3 cp = Inr sub \<and> 2 \<le> length sub \<longrightarrow>
      scan_prefixes s3 = Inr sub"
    by (cases sub) (auto simp: scan_prefixes_def discover_2 discover_1)
  have 3: "discover s3 [] 2 = Inr prefixes \<and> length prefixes \<le> 1 \<longrightarrow>
      scan_prefixes s3 = Inr (split_prefix (if prefixes = [] then [] else hd prefixes))"
    by (simp add: scan_prefixes_def)
  have 4: "split_prefix base = map (\<lambda>c. base @ [c]) ''0123456789abcdefghijklmnopqrstuvwxyz''"
    by (simp add: split_prefix_def)
  show ?thesis using 1 2 5 3 4 length_split_prefix distinct_split_prefix by blast
qed

theorem fallback_partitions_witness:
  "flat_bucket [] = Inr [] \<and>
   discover flat_bucket [] 2 = Inr [[]] \<and>
   scan_prefixes flat_bucket = Inr (split_prefix []) \<and>
   one_prefix_bucket [] = Inr [''data/''] \<and> one_prefix_bucket ''data/'' = Inr [] \<and>
   scan_prefixes one_prefix_bucket = Inr (split_prefix ''data/'') \<and>
   two_level_bucket [] = Inr [''a/''] \<and> two_level_bucket ''a/'' = Inr [''a/x/'', ''a/y/''] \<and>
   scan_prefixes two_level_bucket = Inr [''a/x/'', ''a/y/''] \<and>
   split_prefix ''data/'' = [''data/0'', ''data/1'', ''data/2'', ''data/3'', ''data/4'',
     ''data/5'', ''data/6'', ''data/7'', ''data/8'', ''data/9'', ''data/a'', ''data/b'',
     ''data/c'', ''data/d'', ''data/e'', ''data/f'', ''data/g'', ''data/h'', ''data/i'',
     ''data/j'', ''data/k'', ''data/l'', ''data/m'', ''data/n'', ''data/o'', ''data/p'',
     ''data/q'', ''data/r'', ''data/s'', ''data/t'', ''data/u'', ''data/v'', ''data/w'',
     ''data/x'', ''data/y'', ''data/z'']"
  using fallback_partitions [of flat_bucket "''a/''" "[]" "[[]]" "[]"]
    fallback_partitions [of one_prefix_bucket "''data/''" "[]" "[''data/'']" "''data/''"]
    fallback_partitions [of two_level_bucket "''a/''" "[''a/x/'', ''a/y/'']"
      "[''a/x/'', ''a/y/'']" "''a/''"]
  by (simp add: flat_bucket_def one_prefix_bucket_def two_level_bucket_def discover_2 discover_1)

section \<open>Properties of the confirmation\<close>

lemma demo_tree: "run [Insert ''a/b'' 3, Insert ''c'' 5] = 
   Node ''/'' True 8 []
     [(''a'',
       Node ''a'' True 3 [] [(''b'', Node ''b'' False 3 ''a/b'' [])]),
      (''c'', Node ''c'' False 5 ''c'' [])]"
  by (simp add: run_def tree_insert_def parts_of_def empty_tree_def set_ch_def set_size_def
        sum_sizes_def)

lemma demo_ui_eq:
  "demo_ui = \<lparr>ftree =
    Node ''/'' True 8 []
     [(''a'',
       Node ''a'' True 3 [] [(''b'', Node ''b'' False 3 ''a/b'' [])]),
      (''c'', Node ''c'' False 5 ''c'' [])],
    s3_client = \<lparr>answers = always_ok, calls = []\<rparr>, cwd = [], sort_by = ''size'',
    items = [[''c''], [''a'']], confirm_node = None, cursor_row = 0,
    status = Totals 8 2, running = True\<rparr>"
  by (simp add: demo_ui_def demo_tree init_ui_def refresh_def update_status_def sorted_nodes_def)

lemma confirming_ui_eq:
  "confirming_ui = \<lparr>ftree =
    Node ''/'' True 8 []
     [(''a'',
       Node ''a'' True 3 [] [(''b'', Node ''b'' False 3 ''a/b'' [])]),
      (''c'', Node ''c'' False 5 ''c'' [])],
    s3_client = \<lparr>answers = always_ok, calls = []\<rparr>, cwd = [], sort_by = ''size'',
    items = [[''c''], [''a'']], confirm_node = Some [''c''], cursor_row = 0,
    status = Ask_delete ''c'' 1 5, running = True\<rparr>"
  by (simp add: confirming_ui_def demo_ui_eq BINDINGS_def action_delete_def cancel_confirm_def sel_def)

text \<open>
  C8 as stated fails: with a confirmation pending, \<open>q\<close> is neither confirm nor cancel,
  and it performs its own action: the application exits, and the confirmation was not
  cancelled.
\<close>

theorem quit_does_not_cancel:
  "confirm_node confirming_ui = Some [''c''] \<and> running confirming_ui \<and>
   confirm_node (snd (handle ascii_lower cursor_keys (Key ''q'') confirming_ui)) = Some [''c''] \<and>
   \<not> running (snd (handle ascii_lower cursor_keys (Key ''q'') confirming_ui))"
  by (simp add: confirming_ui_eq BINDINGS_def action_quit_def)

text \<open>
  C8, as the code has it. With a confirmation pending, each of \<open>d\<close>, \<open>s\<close>, \<open>n\<close>,
  backspace and the selection of a row only drops the confirmation and restores the
  totals in the status line: directory, sort order, rows, cursor, tree and client are as
  before, and the input's own action is not performed. These are the handlers that
  start with \<open>_cancel_confirm\<close>.
\<close>

theorem other_keys_cancel_confirm:
  "confirm_node st \<noteq> None \<Longrightarrow>
   ev \<in> {Key ''d'', Key ''s'', Key ''n'', Key ''backspace'', Row_selected} \<Longrightarrow>
   handle lower table ev st
     = (None, st\<lparr>confirm_node := None,
                  status := Totals (size_n (ftree st)) (count (ftree st))\<rparr>)"
  by (auto simp: BINDINGS_def action_delete_def action_sort_size_def action_sort_name_def
      action_go_up_def on_data_table_row_selected_def cancel_confirm_def update_status_def)

theorem other_keys_cancel_confirm_witness:
  "confirm_node confirming_ui \<noteq> None \<and>
   handle ascii_lower cursor_keys (Key ''s'') confirming_ui = (None, demo_ui) \<and>
   handle ascii_lower cursor_keys Row_selected confirming_ui = (None, demo_ui)"
proof -
  have c: "confirm_node confirming_ui \<noteq> None"
    by (simp add: confirming_ui_eq)
  have d: "confirming_ui\<lparr>confirm_node := None,
        status := Totals (size_n (ftree confirming_ui)) (count (ftree confirming_ui))\<rparr> = demo_ui"
    by (simp add: confirming_ui_eq demo_ui_eq)
  show ?thesis
    using other_keys_cancel_confirm [OF c, of "Key ''s''"]
      other_keys_cancel_confirm [OF c, of Row_selected] c d
    by simp
qed

text \<open>
  A key with no binding moves the cursor at most: with a confirmation pending, \<open>down\<close>
  puts the cursor on the second row and the confirmation stays.
\<close>

lemma unbound_key_moves_cursor_only:
  "map_of BINDINGS k = None \<Longrightarrow>
   handle lower table (Key k) st = (None, st\<lparr>cursor_row := table k st\<rparr>)"
  by simp

lemma cursor_key_keeps_confirmation:
  "handle ascii_lower cursor_keys (Key ''down'') confirming_ui
     = (None, confirming_ui\<lparr>cursor_row := 1\<rparr>) \<and>
   confirm_node (confirming_ui\<lparr>cursor_row := 1\<rparr>) = Some [''c'']"
  by (simp add: confirming_ui_eq BINDINGS_def cursor_keys_def)

section \<open>Properties of the bulk delete\<close>

subsection \<open>The batches\<close>

lemma batches_of_Nil [simp]: "batches_of n [] = []"
  by (simp add: batches_of.simps)

lemma batches_of_step:
  "0 < n \<Longrightarrow> xs \<noteq> [] \<Longrightarrow> batches_of n xs = take n xs # batches_of n (drop n xs)"
  by (subst batches_of.simps) simp

lemma concat_batches_of: "0 < n \<Longrightarrow> concat (batches_of n xs) = xs"
proof (induction n xs rule: batches_of.induct)
  case (1 n xs)
  show ?case
  proof (cases "xs = []")
    case True
    then show ?thesis by simp
  next
    case False
    then show ?thesis using 1 by (simp add: batches_of_step)
  qed
qed

lemma batches_of_sizes:
  "0 < n \<Longrightarrow> b \<in> set (batches_of n xs) \<Longrightarrow> b \<noteq> [] \<and> length b \<le> n"
proof (induction n xs rule: batches_of.induct)
  case (1 n xs)
  show ?case
  proof (cases "xs = []")
    case True
    then show ?thesis using 1 by simp
  next
    case False
    then show ?thesis using 1 by (auto simp: batches_of_step)
  qed
qed

lemma batches_of_full:
  "0 < n \<Longrightarrow> b \<in> set (butlast (batches_of n xs)) \<Longrightarrow> length b = n"
proof (induction n xs rule: batches_of.induct)
  case (1 n xs)
  show ?case
  proof (cases "xs = []")
    case True
    then show ?thesis using 1 by simp
  next
    case False
    show ?thesis
    proof (cases "drop n xs = []")
      case True
      then show ?thesis using 1 False by (simp add: batches_of_step)
    next
      case d: False
      then have "batches_of n (drop n xs) \<noteq> []" using 1(2) by (simp add: batches_of_step)
      then show ?thesis using 1 False d by (auto simp: batches_of_step)
    qed
  qed
qed

lemma batches_of_2500:
  "length xs = 2500 \<Longrightarrow>
   batches_of 1000 xs = [take 1000 xs, take 1000 (drop 1000 xs), drop 2000 xs]"
proof -
  assume l: "length xs = 2500"
  then have 1: "xs \<noteq> []" "drop 1000 xs \<noteq> []" "drop 2000 xs \<noteq> []" by auto
  have "batches_of 1000 xs = take 1000 xs # batches_of 1000 (drop 1000 xs)"
    using 1 by (simp add: batches_of_step)
  also have "batches_of 1000 (drop 1000 xs)
      = take 1000 (drop 1000 xs) # batches_of 1000 (drop 2000 xs)"
    using 1 by (simp add: batches_of_step)
  also have "batches_of 1000 (drop 2000 xs) = [drop 2000 xs]"
    using 1 l by (simp add: batches_of_step)
  finally show ?thesis .
qed

lemma delete_batches_issue:
  "delete_batches c keys i = issue c (batches_of 1000 (drop i keys))"
proof (induction c keys i rule: delete_batches.induct)
  case (1 c keys i)
  show ?case
  proof (cases "i < length keys")
    case False
    then show ?thesis by (simp add: delete_batches.simps)
  next
    case True
    then have b: "batches_of 1000 (drop i keys)
        = take 1000 (drop i keys) # batches_of 1000 (drop (i + 1000) keys)"
      by (simp add: batches_of_step add.commute)
    show ?thesis
    proof (cases "delete_objects c (take 1000 (drop i keys))")
      case (Pair r c')
      show ?thesis
      proof (cases r)
        case None
        then show ?thesis using True Pair b 1 [OF True Pair [symmetric]]
          by (subst delete_batches.simps) simp
      next
        case (Some e)
        then show ?thesis using True Pair b
          by (subst delete_batches.simps) simp
      qed
    qed
  qed
qed

lemma issue_all_ok:
  "(\<And>i b. answers c i b) \<Longrightarrow> issue c bs = (None, c\<lparr>calls := calls c @ bs\<rparr>)"
proof (induction bs arbitrary: c)
  case Nil
  then show ?case by simp
next
  case (Cons b bs)
  have "issue (c\<lparr>calls := calls c @ [b]\<rparr>) bs
      = (None, (c\<lparr>calls := calls c @ [b]\<rparr>)\<lparr>calls := calls (c\<lparr>calls := calls c @ [b]\<rparr>) @ bs\<rparr>)"
    using Cons.prems by (intro Cons.IH) simp
  then show ?case using Cons.prems by (simp add: delete_objects_def)
qed

lemma issue_answers: "issue c bs = (r, c') \<Longrightarrow> answers c' = answers c"
proof (induction bs arbitrary: c)
  case Nil
  then show ?case by auto
next
  case (Cons b bs)
  show ?case
  proof (cases "answers c (length (calls c)) b")
    case False
    then show ?thesis using Cons.prems by (auto simp: delete_objects_def)
  next
    case True
    then have "issue (c\<lparr>calls := calls c @ [b]\<rparr>) bs = (r, c')"
      using Cons.prems by (simp add: delete_objects_def)
    from Cons.IH [OF this] show ?thesis by simp
  qed
qed

lemma issue_None:
  "issue c bs = (None, c') \<Longrightarrow>
   calls c' = calls c @ bs \<and> (\<forall>j<length bs. answers c (length (calls c) + j) (bs ! j))"
proof (induction bs arbitrary: c)
  case Nil
  then show ?case by auto
next
  case (Cons b bs)
  have t: "answers c (length (calls c)) b"
  proof (rule ccontr)
    assume "\<not> answers c (length (calls c)) b"
    then show False using Cons.prems by (simp add: delete_objects_def)
  qed
  then have "issue (c\<lparr>calls := calls c @ [b]\<rparr>) bs = (None, c')"
    using Cons.prems by (simp add: delete_objects_def)
  from Cons.IH [OF this]
  have 1: "calls c' = calls c @ b # bs"
    and 2: "\<forall>j<length bs. answers c (Suc (length (calls c) + j)) (bs ! j)"
    by simp_all
  show ?case using t 1 2 by (simp add: All_less_Suc2)
qed

lemma issue_Some:
  "issue c bs = (Some e, c') \<Longrightarrow>
   \<exists>m<length bs. calls c' = calls c @ take (Suc m) bs \<and>
     \<not> answers c (length (calls c) + m) (bs ! m) \<and>
     (\<forall>j<m. answers c (length (calls c) + j) (bs ! j))"
proof (induction bs arbitrary: c)
  case Nil
  then show ?case by simp
next
  case (Cons b bs)
  show ?case
  proof (cases "answers c (length (calls c)) b")
    case False
    then have "calls c' = calls c @ [b]"
      using Cons.prems by (auto simp: delete_objects_def)
    then have "0 < length (b # bs) \<and> calls c' = calls c @ take (Suc 0) (b # bs) \<and>
        \<not> answers c (length (calls c) + 0) ((b # bs) ! 0) \<and>
        (\<forall>j<0. answers c (length (calls c) + j) ((b # bs) ! j))"
      using False by simp
    then show ?thesis by (rule_tac x = 0 in exI)
  next
    case True
    then have "issue (c\<lparr>calls := calls c @ [b]\<rparr>) bs = (Some e, c')"
      using Cons.prems by (simp add: delete_objects_def)
    from Cons.IH [OF this] obtain m where m: "m < length bs"
      and 1: "calls c' = calls c @ b # take (Suc m) bs"
      and 2: "\<not> answers c (Suc (length (calls c) + m)) (bs ! m)"
      and 3: "\<forall>j<m. answers c (Suc (length (calls c) + j)) (bs ! j)"
      by auto
    have "Suc m < length (b # bs) \<and> calls c' = calls c @ take (Suc (Suc m)) (b # bs) \<and>
        \<not> answers c (length (calls c) + Suc m) ((b # bs) ! Suc m) \<and>
        (\<forall>j<Suc m. answers c (length (calls c) + j) ((b # bs) ! j))"
      using m 1 2 3 True by (simp add: All_less_Suc2)
    then show ?thesis by (rule_tac x = "Suc m" in exI)
  qed
qed

subsection \<open>The action\<close>

lemma confirm_yes_issue:
  "confirm_node st = Some nd \<Longrightarrow> get (ftree st) nd = Some n \<Longrightarrow>
   action_confirm_yes lower st =
     (case issue (s3_client st) (batches_of 1000 (all_keys n)) of
        (Some e, c) \<Rightarrow> (Some e, st\<lparr>status := Deleting (length (all_keys n)), s3_client := c\<rparr>)
      | (None, c) \<Rightarrow>
          (let st3 = refresh lower (st\<lparr>status := Deleting (length (all_keys n)), s3_client := c,
                                 ftree := tree_remove (ftree st) nd\<rparr>);
               st4 = (if items st3 \<noteq> []
                      then st3\<lparr>cursor_row := min (cursor_row st) (int (length (items st3)) - 1)\<rparr>
                      else st3)
           in (None, st4\<lparr>status := Deleted (length (all_keys n))\<rparr>)))"
  by (simp add: action_confirm_yes_def delete_batches_issue Let_def split: prod.splits option.splits)

lemma ftree_refresh [simp]: "ftree (refresh lower st) = ftree st"
  by (simp add: refresh_def update_status_def Let_def)

lemma s3_client_refresh [simp]: "s3_client (refresh lower st) = s3_client st"
  by (simp add: refresh_def update_status_def Let_def)

lemma confirm_node_refresh [simp]: "confirm_node (refresh lower st) = None"
  by (simp add: refresh_def update_status_def Let_def)

lemma all_keys_big_leaves:
  "concat (map ((\<lambda>kc. all_keys (snd kc)) \<circ> big_leaf) xs) = map (\<lambda>i. ''d/f'' @ dec i) xs"
  by (induction xs) (simp_all add: big_leaf_def)

lemma all_keys_big_dir: "all_keys (big_dir n) = map (\<lambda>i. ''d/f'' @ dec i) [0..<n]"
  by (simp add: big_dir_def all_keys_big_leaves)

lemma length_all_keys_big_dir: "length (all_keys (big_dir n)) = n"
  by (simp add: all_keys_big_dir)

lemma big_dir_sel: "name (big_dir n) = ''d''" "dir (big_dir n)" "size_n (big_dir n) = int n"
  by (simp_all add: big_dir_def)

lemma big_confirming_eq:
  "big_confirming a =
     \<lparr>ftree = big_tree 2500, s3_client = \<lparr>answers = a, calls = []\<rparr>, cwd = [],
      sort_by = ''size'', items = [[''d'']], confirm_node = Some [''d''], cursor_row = 0,
      status = Ask_delete ''d/'' (count (big_dir 2500)) 2500, running = True\<rparr>"
  by (simp add: big_confirming_def init_ui_def refresh_def update_status_def sorted_nodes_def
      BINDINGS_def action_delete_def cancel_confirm_def sel_def big_tree_def big_dir_sel)

lemma get_big_dir: "get (big_tree n) [''d''] = Some (big_dir n)"
  by (simp add: big_tree_def)

lemma issue_third_fails:
  "issue \<lparr>answers = third_fails, calls = []\<rparr> [b0, b1, b2]
     = (Some ClientError, \<lparr>answers = third_fails, calls = [b0, b1, b2]\<rparr>)"
  by (simp add: delete_objects_def third_fails_def)

lemma big_failed:
  "action_confirm_yes lower (big_confirming third_fails) =
     (Some ClientError,
      (big_confirming third_fails)
        \<lparr>status := Deleting 2500,
         s3_client := \<lparr>answers = third_fails,
           calls = [take 1000 (all_keys (big_dir 2500)),
                    take 1000 (drop 1000 (all_keys (big_dir 2500))),
                    drop 2000 (all_keys (big_dir 2500))]\<rparr>\<rparr>)"
proof -
  have c: "confirm_node (big_confirming third_fails) = Some [''d'']"
    by (simp add: big_confirming_eq)
  have g: "get (ftree (big_confirming third_fails)) [''d''] = Some (big_dir 2500)"
    by (simp add: big_confirming_eq big_tree_def)
  have s: "s3_client (big_confirming third_fails) = \<lparr>answers = third_fails, calls = []\<rparr>"
    by (simp add: big_confirming_eq)
  have b: "batches_of 1000 (all_keys (big_dir 2500))
      = [take 1000 (all_keys (big_dir 2500)),
         take 1000 (drop 1000 (all_keys (big_dir 2500))),
         drop 2000 (all_keys (big_dir 2500))]"
    by (simp add: batches_of_2500 length_all_keys_big_dir)
  have i: "issue (s3_client (big_confirming third_fails))
        (batches_of 1000 (all_keys (big_dir 2500)))
      = (Some ClientError, \<lparr>answers = third_fails,
           calls = [take 1000 (all_keys (big_dir 2500)),
                    take 1000 (drop 1000 (all_keys (big_dir 2500))),
                    drop 2000 (all_keys (big_dir 2500))]\<rparr>)"
    unfolding s b by (rule issue_third_fails)
  show ?thesis
    unfolding confirm_yes_issue [OF c g] i
    by (simp add: length_all_keys_big_dir)
qed

lemma first_key: "''d/f0'' \<in> set (take 1000 (all_keys (big_dir 2500)))"
proof -
  have "take 1000 (all_keys (big_dir 2500)) = map (\<lambda>i. ''d/f'' @ dec i) [0..<1000]"
    by (simp add: all_keys_big_dir take_map)
  moreover have "''d/f'' @ dec 0 = ''d/f0''" by (simp add: dec.simps)
  moreover have "(0::nat) \<in> set [0..<1000]" by simp
  ultimately show ?thesis by (metis (no_types, lifting) imageI set_map)
qed

lemma all_keys_big_tree: "all_keys (big_tree n) = all_keys (big_dir n)"
  by (simp add: big_tree_def)

text \<open>
  The batches of a confirmed delete. The keys of \<open>all_keys(node)\<close> are sent in batches,
  one call per batch, appended to the calls in order: the calls made are always a
  leading part of the batches, and all of them when every call returns. The batches,
  concatenated, are the key list; none is empty or longer than 1000 and all but the
  last have exactly 1000 keys. For a key list of 2500 keys these are three batches of
  1000, 1000 and 500.
\<close>

lemma confirm_yes_batches:
  "confirm_node st = Some nd \<Longrightarrow> get (ftree st) nd = Some n \<Longrightarrow>
   (\<exists>m\<le>length (batches_of 1000 (all_keys n)).
      calls (s3_client (snd (action_confirm_yes lower st)))
        = calls (s3_client st) @ take m (batches_of 1000 (all_keys n))) \<and>
   ((\<forall>i keys. answers (s3_client st) i keys) \<longrightarrow>
      fst (action_confirm_yes lower st) = None \<and>
      calls (s3_client (snd (action_confirm_yes lower st)))
        = calls (s3_client st) @ batches_of 1000 (all_keys n)) \<and>
   concat (batches_of 1000 (all_keys n)) = all_keys n \<and>
   (\<forall>b\<in>set (batches_of 1000 (all_keys n)). b \<noteq> [] \<and> length b \<le> 1000) \<and>
   (\<forall>b\<in>set (butlast (batches_of 1000 (all_keys n))). length b = 1000) \<and>
   (length (all_keys n) = 2500 \<longrightarrow>
      map length (batches_of 1000 (all_keys n)) = [1000, 1000, 500])"
proof -
  assume c: "confirm_node st = Some nd" and g: "get (ftree st) nd = Some n"
  let ?bs = "batches_of 1000 (all_keys n)"
  note u = confirm_yes_issue [OF c g]
  obtain r c' where i: "issue (s3_client st) ?bs = (r, c')" by (cases "issue (s3_client st) ?bs")
  have cl: "calls (s3_client (snd (action_confirm_yes lower st))) = calls c'"
    using u i by (cases r) (simp_all add: Let_def)
  have 1: "\<exists>m\<le>length ?bs. calls (s3_client (snd (action_confirm_yes lower st)))
        = calls (s3_client st) @ take m ?bs"
  proof (cases r)
    case None
    then have "calls c' = calls (s3_client st) @ take (length ?bs) ?bs"
      using issue_None i by simp
    then show ?thesis using cl by (intro exI [of _ "length ?bs"]) simp
  next
    case (Some e)
    then obtain m where "m < length ?bs" "calls c' = calls (s3_client st) @ take (Suc m) ?bs"
      using issue_Some i by blast
    then show ?thesis using cl by (intro exI [of _ "Suc m"]) simp
  qed
  have 2: "(\<forall>i keys. answers (s3_client st) i keys) \<longrightarrow>
      fst (action_confirm_yes lower st) = None \<and>
      calls (s3_client (snd (action_confirm_yes lower st))) = calls (s3_client st) @ ?bs"
  proof
    assume "\<forall>i keys. answers (s3_client st) i keys"
    then have "issue (s3_client st) ?bs = (None, (s3_client st)\<lparr>calls := calls (s3_client st) @ ?bs\<rparr>)"
      by (intro issue_all_ok) simp
    then show "fst (action_confirm_yes lower st) = None \<and>
      calls (s3_client (snd (action_confirm_yes lower st))) = calls (s3_client st) @ ?bs"
      using u by (simp add: Let_def)
  qed
  have 3: "concat ?bs = all_keys n" by (simp add: concat_batches_of)
  have 4: "\<forall>b\<in>set ?bs. b \<noteq> [] \<and> length b \<le> 1000"
    using batches_of_sizes [of 1000 _ "all_keys n"] by simp
  have 5: "\<forall>b\<in>set (butlast ?bs). length b = 1000"
    using batches_of_full [of 1000 _ "all_keys n"] by simp
  have 6: "length (all_keys n) = 2500 \<longrightarrow> map length ?bs = [1000, 1000, 500]"
    by (simp add: batches_of_2500)
  show ?thesis using 1 2 3 4 5 6 by blast
qed

lemma confirm_yes_batches_example:
  "confirm_node (big_confirming always_ok) = Some [''d''] \<and>
   get (ftree (big_confirming always_ok)) [''d''] = Some (big_dir 2500) \<and>
   length (all_keys (big_dir 2500)) = 2500 \<and>
   fst (action_confirm_yes ascii_lower (big_confirming always_ok)) = None \<and>
   map length (calls (s3_client (snd (action_confirm_yes ascii_lower (big_confirming always_ok)))))
     = [1000, 1000, 500] \<and>
   concat (calls (s3_client (snd (action_confirm_yes ascii_lower (big_confirming always_ok)))))
     = all_keys (big_dir 2500)"
proof -
  have c: "confirm_node (big_confirming always_ok) = Some [''d'']"
    by (simp add: big_confirming_eq)
  have g: "get (ftree (big_confirming always_ok)) [''d''] = Some (big_dir 2500)"
    by (simp add: big_confirming_eq big_tree_def)
  have a: "\<forall>i keys. answers (s3_client (big_confirming always_ok)) i keys"
    by (simp add: big_confirming_eq always_ok_def)
  have s: "calls (s3_client (big_confirming always_ok)) = []"
    by (simp add: big_confirming_eq)
  show ?thesis
    using confirm_yes_batches [OF c g] a c g s length_all_keys_big_dir [of 2500]
    by simp
qed

text \<open>
  C2 as stated fails. For the directory of 2500 objects and a client whose third call
  raises, the first two batches succeed, the exception leaves the action, and the tree
  is the one before the delete: \<open>d/f0\<close>, a key of the first batch, is still a key of
  the tree.
\<close>

theorem failed_batch_leaves_tree:
  "confirm_node (big_confirming third_fails) = Some [''d''] \<and>
   length (all_keys (big_dir 2500)) = 2500 \<and>
   fst (action_confirm_yes ascii_lower (big_confirming third_fails)) = Some ClientError \<and>
   map length (calls (s3_client (snd (action_confirm_yes ascii_lower (big_confirming third_fails)))))
     = [1000, 1000, 500] \<and>
   third_fails 0 (calls (s3_client (snd (action_confirm_yes ascii_lower (big_confirming third_fails)))) ! 0) \<and>
   third_fails 1 (calls (s3_client (snd (action_confirm_yes ascii_lower (big_confirming third_fails)))) ! 1) \<and>
   ''d/f0'' \<in> set (calls (s3_client (snd (action_confirm_yes ascii_lower (big_confirming third_fails)))) ! 0) \<and>
   ''d/f0'' \<in> set (all_keys (ftree (snd (action_confirm_yes ascii_lower (big_confirming third_fails))))) \<and>
   ftree (snd (action_confirm_yes ascii_lower (big_confirming third_fails))) = big_tree 2500"
proof -
  have k: "''d/f0'' \<in> set (all_keys (big_dir 2500))"
    using first_key by (rule in_set_takeD)
  show ?thesis
    using first_key k
    by (simp add: big_failed length_all_keys_big_dir third_fails_def)
      (simp add: big_confirming_eq all_keys_big_tree)
qed

text \<open>
  C2, as the code has it. The tree changes once, by \<open>Tree.remove(node)\<close>, after every
  batch has succeeded. When a call raises, the calls made are the batches up to and
  including the failing one (the remaining batches are not attempted), the tree is
  exactly the one before the delete, and the confirmation is still pending.
\<close>

theorem confirm_yes_removes_at_the_end:
  "confirm_node st = Some nd \<Longrightarrow> get (ftree st) nd = Some n \<Longrightarrow>
   (case action_confirm_yes lower st of
      (None, st') \<Rightarrow>
        ftree st' = tree_remove (ftree st) nd \<and> confirm_node st' = None \<and>
        calls (s3_client st') = calls (s3_client st) @ batches_of 1000 (all_keys n) \<and>
        (\<forall>j<length (batches_of 1000 (all_keys n)).
           answers (s3_client st) (length (calls (s3_client st)) + j)
             (batches_of 1000 (all_keys n) ! j))
    | (Some e, st') \<Rightarrow>
        ftree st' = ftree st \<and> confirm_node st' = Some nd \<and>
        (\<exists>m<length (batches_of 1000 (all_keys n)).
           calls (s3_client st')
             = calls (s3_client st) @ take (Suc m) (batches_of 1000 (all_keys n)) \<and>
           \<not> answers (s3_client st) (length (calls (s3_client st)) + m)
               (batches_of 1000 (all_keys n) ! m) \<and>
           (\<forall>j<m. answers (s3_client st) (length (calls (s3_client st)) + j)
                    (batches_of 1000 (all_keys n) ! j))))"
proof -
  assume c: "confirm_node st = Some nd" and g: "get (ftree st) nd = Some n"
  let ?bs = "batches_of 1000 (all_keys n)"
  note u = confirm_yes_issue [OF c g]
  obtain r c' where i: "issue (s3_client st) ?bs = (r, c')" by (cases "issue (s3_client st) ?bs")
  show ?thesis
  proof (cases r)
    case None
    then show ?thesis using u i issue_None [of "s3_client st" ?bs c'] c
      by (simp add: Let_def)
  next
    case (Some e)
    then show ?thesis using u i issue_Some [of "s3_client st" ?bs e c'] c
      by simp
  qed
qed

theorem confirm_yes_removes_at_the_end_witness:
  "confirm_node (big_confirming third_fails) = Some [''d''] \<and>
   get (ftree (big_confirming third_fails)) [''d''] = Some (big_dir 2500) \<and>
   fst (action_confirm_yes ascii_lower (big_confirming third_fails)) = Some ClientError \<and>
   ftree (snd (action_confirm_yes ascii_lower (big_confirming third_fails)))
     = ftree (big_confirming third_fails) \<and>
   confirm_node confirming_ui = Some [''c''] \<and>
   get (ftree confirming_ui) [''c''] = Some (Node ''c'' False 5 ''c'' []) \<and>
   fst (action_confirm_yes ascii_lower confirming_ui) = None \<and>
   ftree (snd (action_confirm_yes ascii_lower confirming_ui)) = tree_remove (ftree confirming_ui) [''c''] \<and>
   calls (s3_client (snd (action_confirm_yes ascii_lower confirming_ui))) = [[''c'']]"
proof -
  have c: "confirm_node (big_confirming third_fails) = Some [''d'']"
    by (simp add: big_confirming_eq)
  have g: "get (ftree (big_confirming third_fails)) [''d''] = Some (big_dir 2500)"
    by (simp add: big_confirming_eq big_tree_def)
  have f: "fst (action_confirm_yes ascii_lower (big_confirming third_fails)) = Some ClientError"
    by (simp add: big_failed)
  have 1: "ftree (snd (action_confirm_yes ascii_lower (big_confirming third_fails)))
     = ftree (big_confirming third_fails)"
    using confirm_yes_removes_at_the_end [OF c g, of ascii_lower] f
    by (cases "action_confirm_yes ascii_lower (big_confirming third_fails)") auto
  have c2: "confirm_node confirming_ui = Some [''c'']"
    by (simp add: confirming_ui_eq)
  have g2: "get (ftree confirming_ui) [''c''] = Some (Node ''c'' False 5 ''c'' [])"
    by (simp add: confirming_ui_eq)
  have i2: "issue (s3_client confirming_ui) (batches_of 1000 [''c''])
      = (None, \<lparr>answers = always_ok, calls = [[''c'']]\<rparr>)"
    by (simp add: confirming_ui_eq batches_of_step delete_objects_def always_ok_def)
  have f2: "fst (action_confirm_yes ascii_lower confirming_ui) = None"
    unfolding confirm_yes_issue [OF c2 g2] using i2 by (simp add: Let_def)
  have 2: "ftree (snd (action_confirm_yes ascii_lower confirming_ui)) = tree_remove (ftree confirming_ui) [''c'']
      \<and> calls (s3_client (snd (action_confirm_yes ascii_lower confirming_ui))) = [[''c'']]"
    using confirm_yes_removes_at_the_end [OF c2 g2, of ascii_lower] f2
    by (cases "action_confirm_yes ascii_lower confirming_ui")
      (auto simp: confirming_ui_eq batches_of_step)
  show ?thesis using c g f 1 c2 g2 f2 2 by simp
qed

text \<open>
  The key \<open>y\<close> with a client whose third call raises: the exception leaves the action
  and stops the application, the tree as before the delete.
\<close>

lemma failed_delete_stops_application:
  "fst (handle ascii_lower cursor_keys (Key ''y'') (big_confirming third_fails)) = Some ClientError \<and>
   \<not> running (snd (handle ascii_lower cursor_keys (Key ''y'') (big_confirming third_fails))) \<and>
   ftree (snd (handle ascii_lower cursor_keys (Key ''y'') (big_confirming third_fails)))
     = big_tree 2500"
  by (simp add: BINDINGS_def big_failed) (simp add: big_confirming_eq)

section \<open>Properties of remove followed by insert\<close>

subsection \<open>What the program's trees satisfy\<close>

lemma sel_set_ch [simp]:
  "name (set_ch cs n) = name n" "dir (set_ch cs n) = dir n" "size_n (set_ch cs n) = size_n n"
  "key (set_ch cs n) = key n" "ch (set_ch cs n) = cs"
  by (simp_all add: set_ch_def)

lemma sel_set_size [simp]:
  "name (set_size s n) = name n" "dir (set_size s n) = dir n" "size_n (set_size s n) = s"
  "key (set_size s n) = key n" "ch (set_size s n) = ch n"
  by (simp_all add: set_size_def)

lemma sel_set_size_key [simp]:
  "name (set_size_key s k n) = name n" "dir (set_size_key s k n) = dir n"
  "size_n (set_size_key s k n) = s" "key (set_size_key s k n) = k"
  "ch (set_size_key s k n) = ch n"
  by (simp_all add: set_size_key_def)

lemma wf_iff:
  "wf P n = ((dir n \<or> parts_of (key n) = P) \<and> distinct (map fst (ch n)) \<and>
     (\<forall>kc\<in>set (ch n). name (snd kc) = fst kc \<and> wf (P @ [fst kc]) (snd kc)))"
  by (cases n) (simp add: list_all_iff)

lemma wf_child:
  assumes "wf P n" and "map_of (ch n) p = Some c"
  shows "name c = p \<and> wf (P @ [p]) c"
proof -
  from assms(2) have "(p, c) \<in> set (ch n)" by (rule map_of_SomeD)
  with assms(1) wf_iff [of P n] show ?thesis by fastforce
qed

lemma wf_set_size [simp]: "wf P (set_size s n) = wf P n"
  by (simp add: wf_iff [of P "set_size s n"] wf_iff [of P n])

lemma wf_update:
  assumes "wf P n" and "name c = p" and "wf (P @ [p]) c"
  shows "wf P (set_ch (AList.update p c (ch n)) n)"
proof -
  have "\<forall>kc\<in>set (AList.update p c (ch n)). name (snd kc) = fst kc \<and> wf (P @ [fst kc]) (snd kc)"
  proof
    fix kc assume "kc \<in> set (AList.update p c (ch n))"
    then have "kc = (p, c) \<or> kc \<in> set (ch n)" using set_update_subset by fastforce
    then show "name (snd kc) = fst kc \<and> wf (P @ [fst kc]) (snd kc)"
      using assms wf_iff [of P n] by auto
  qed
  moreover have "distinct (map fst (AList.update p c (ch n)))"
    using assms(1) wf_iff [of P n] by (simp add: distinct_update)
  ultimately show ?thesis
    using assms(1) wf_iff [of P n] by (simp add: wf_iff [of P "set_ch _ n"])
qed

lemma wf_delete:
  assumes "wf P n"
  shows "wf P (set_ch (AList.delete p (ch n)) n)"
proof -
  have "distinct (map fst (AList.delete p (ch n)))"
    using assms wf_iff [of P n] by (simp add: distinct_delete)
  moreover have "\<forall>kc\<in>set (AList.delete p (ch n)). name (snd kc) = fst kc \<and> wf (P @ [fst kc]) (snd kc)"
    using assms wf_iff [of P n] set_delete_subset [of p "ch n"] by blast
  ultimately show ?thesis
    using assms wf_iff [of P n] by (simp add: wf_iff [of P "set_ch _ n"])
qed

lemma name_walk [simp]: "name (walk n ps k s) = name n"
  by (cases ps) (simp_all add: Let_def)

lemma dir_walk [simp]: "dir (walk n ps k s) = dir n"
  by (cases ps) (simp_all add: Let_def)

lemma name_bubble [simp]: "name (bubble n ps) = name n"
  by (cases ps) (simp_all add: Let_def split: option.splits)

lemma dir_bubble [simp]: "dir (bubble n ps) = dir n"
  by (cases ps) (simp_all add: Let_def split: option.splits)

lemma name_recalc [simp]: "name (recalc n ps) = name n"
  by (cases ps) (simp_all add: Let_def split: option.splits)

lemma dir_recalc [simp]: "dir (recalc n ps) = dir n"
  by (cases ps) (simp_all add: Let_def split: option.splits)

lemma name_modify: "(\<And>m. name (f m) = name m) \<Longrightarrow> name (modify n ps f) = name n"
  by (cases ps) (simp_all split: option.splits)

lemma dir_modify: "(\<And>m. dir (f m) = dir m) \<Longrightarrow> dir (modify n ps f) = dir n"
  by (cases ps) (simp_all split: option.splits)

lemma wf_walk: "wf P n \<Longrightarrow> parts_of k = P @ ps \<Longrightarrow> wf P (walk n ps k s)"
proof (induction ps arbitrary: n P)
  case Nil
  then show ?case by simp
next
  case (Cons p ps)
  let ?c = "(case map_of (ch n) p of
                 None \<Rightarrow> Node p (ps \<noteq> []) (if ps = [] then s else 0) (if ps = [] then k else []) []
               | Some c0 \<Rightarrow> if ps = [] then set_size_key s k c0 else c0)"
  have c: "name ?c = p \<and> wf (P @ [p]) ?c"
  proof (cases "map_of (ch n) p")
    case None
    then show ?thesis using Cons.prems by simp
  next
    case (Some c0)
    then have "name c0 = p \<and> wf (P @ [p]) c0" using Cons.prems wf_child by blast
    then show ?thesis using Some Cons.prems(2)
      by (simp add: wf_iff [of _ "set_size_key s k c0"] wf_iff [of _ c0])
  qed
  have "parts_of k = (P @ [p]) @ ps" using Cons.prems by simp
  with c have "wf (P @ [p]) (walk ?c ps k s)" using Cons.IH by blast
  then show ?case using Cons.prems(1) c by (simp add: Let_def wf_update)
qed

lemma wf_bubble: "wf P n \<Longrightarrow> wf P (bubble n ps)"
proof (induction ps arbitrary: n P)
  case Nil
  then show ?case by simp
next
  case (Cons p ps)
  show ?case
  proof (cases "map_of (ch n) p")
    case None
    then show ?thesis using Cons.prems by simp
  next
    case (Some c)
    then have "name c = p \<and> wf (P @ [p]) c" using Cons.prems wf_child by blast
    then have "name (bubble c ps) = p \<and> wf (P @ [p]) (bubble c ps)" using Cons.IH by simp
    then show ?thesis using Some Cons.prems by (simp add: Let_def wf_update)
  qed
qed

lemma wf_recalc: "wf P n \<Longrightarrow> wf P (recalc n ps)"
proof (induction ps arbitrary: n P)
  case Nil
  then show ?case by simp
next
  case (Cons p ps)
  show ?case
  proof (cases "map_of (ch n) p")
    case None
    then show ?thesis using Cons.prems by simp
  next
    case (Some c)
    then have "name c = p \<and> wf (P @ [p]) c" using Cons.prems wf_child by blast
    then have "name (recalc c ps) = p \<and> wf (P @ [p]) (recalc c ps)" using Cons.IH by simp
    then show ?thesis using Some Cons.prems by (simp add: Let_def wf_update)
  qed
qed

lemma wf_modify:
  assumes f: "\<And>Q m. wf Q m \<Longrightarrow> wf Q (f m)" and nm: "\<And>m. name (f m) = name m"
  shows "wf P n \<Longrightarrow> wf P (modify n ps f)"
proof (induction ps arbitrary: n P)
  case Nil
  then show ?case using f by simp
next
  case (Cons p ps)
  show ?case
  proof (cases "map_of (ch n) p")
    case None
    then show ?thesis using Cons.prems by simp
  next
    case (Some c)
    then have "name c = p \<and> wf (P @ [p]) c" using Cons.prems wf_child by blast
    then have "name (modify c ps f) = p \<and> wf (P @ [p]) (modify c ps f)"
      using Cons.IH name_modify [of f c ps] nm by simp
    then show ?thesis using Some Cons.prems by (simp add: wf_update)
  qed
qed

lemma wf_insert: "wf [] t \<Longrightarrow> wf [] (tree_insert t k s)"
  by (simp add: tree_insert_def Let_def wf_walk wf_bubble)

lemma wf_remove: "wf [] t \<Longrightarrow> wf [] (tree_remove t pth)"
  by (simp add: tree_remove_def wf_recalc wf_modify wf_delete split: option.splits)

lemma dir_insert: "dir (tree_insert t k s) = dir t"
  by (simp add: tree_insert_def Let_def)

lemma dir_remove: "dir (tree_remove t pth) = dir t"
  by (simp add: tree_remove_def dir_modify split: option.splits)

lemma wf_foldl: "wf [] t \<and> dir t \<Longrightarrow> wf [] (foldl apply_op t ops) \<and> dir (foldl apply_op t ops)"
proof (induction ops arbitrary: t)
  case Nil
  then show ?case by simp
next
  case (Cons x ops)
  have "wf [] (apply_op t x) \<and> dir (apply_op t x)"
    using Cons.prems
    by (cases x) (simp_all add: wf_insert wf_remove wf_recalc dir_insert dir_remove)
  then show ?case using Cons.IH by simp
qed

lemma wf_run: "wf [] (run ops) \<and> dir (run ops)"
  unfolding run_def by (rule wf_foldl) (simp add: empty_tree_def)

lemma wf_get: "wf P n \<Longrightarrow> get n ps = Some m \<Longrightarrow> wf (P @ ps) m"
proof (induction ps arbitrary: n P)
  case Nil
  then show ?case by simp
next
  case (Cons p ps)
  then obtain c where c: "map_of (ch n) p = Some c" "get c ps = Some m"
    by (auto split: option.splits)
  then have "wf (P @ [p]) c" using Cons.prems wf_child by blast
  then have "wf ((P @ [p]) @ ps) m" using c Cons.IH by blast
  then show ?case by simp
qed

lemma get_snoc:
  "get n (qs @ [p]) = (case get n qs of None \<Rightarrow> None | Some par \<Rightarrow> map_of (ch par) p)"
  by (induction qs arbitrary: n) (auto split: option.splits)

subsection \<open>Normal forms\<close>

lemma sel_norm [simp]:
  "name (norm n) = name n" "dir (norm n) = dir n" "size_n (norm n) = size_n n"
  "key (norm n) = key n"
  by (cases n, simp)+

lemma norm_eq:
  "norm n = Node (name n) (dir n) (size_n n) (key n)
     (sort_key fst (map (\<lambda>kc. (fst kc, norm (snd kc))) (ch n)))"
  by (cases n) simp

lemma sort_key_fst_unique:
  assumes "set xs = set ys" and "distinct (map fst xs)" and "distinct (map fst ys)"
  shows "sort_key fst xs = sort_key fst ys"
proof (rule map_sorted_distinct_set_unique [where f = fst])
  show "inj_on fst (set (sort_key fst xs) \<union> set (sort_key fst ys))"
    using assms by (simp add: distinct_map)
  show "sorted (map fst (sort_key fst xs))" "sorted (map fst (sort_key fst ys))"
    by (rule sorted_sort_key)+
  show "distinct (map fst (sort_key fst xs))" using assms(2) by (simp add: distinct_map)
  show "distinct (map fst (sort_key fst ys))" using assms(3) by (simp add: distinct_map)
  show "set (sort_key fst xs) = set (sort_key fst ys)" using assms(1) by simp
qed

lemma update_absent: "map_of cs p = None \<Longrightarrow> AList.update p v cs = cs @ [(p, v)]"
  by (induction cs) (auto split: if_splits)

lemma map_of_delete_same: "map_of (AList.delete p cs) p = None"
  by (simp add: delete_conv')

lemma set_delete_readd:
  "distinct (map fst cs) \<Longrightarrow> map_of cs p = Some l \<Longrightarrow>
   set (AList.delete p cs @ [(p, l)]) = set cs"
proof (induction cs)
  case Nil
  then show ?case by simp
next
  case (Cons x cs)
  show ?case
  proof (cases "fst x = p")
    case True
    then have "x = (p, l)" using Cons.prems by (cases x) simp
    moreover have "p \<notin> fst ` set cs" using Cons.prems True by auto
    ultimately show ?thesis by (simp add: AList.delete_id)
  next
    case False
    then show ?thesis using Cons by (cases x) (auto simp: AList.delete_eq)
  qed
qed

lemma sum_sizes_delete_readd:
  "distinct (map fst cs) \<Longrightarrow> map_of cs p = Some l \<Longrightarrow>
   sum_sizes (AList.delete p cs @ [(p, l)]) = sum_sizes cs"
proof (induction cs)
  case Nil
  then show ?case by simp
next
  case (Cons x cs)
  show ?case
  proof (cases "fst x = p")
    case True
    then have "x = (p, l)" using Cons.prems by (cases x) simp
    moreover have "p \<notin> fst ` set cs" using Cons.prems True by auto
    ultimately show ?thesis by (simp add: AList.delete_id sum_sizes_def)
  next
    case False
    then have "sum_sizes (AList.delete p cs @ [(p, l)]) = sum_sizes cs"
      using Cons by simp
    then show ?thesis using False by (cases x) (simp add: sum_sizes_def AList.delete_eq)
  qed
qed

lemma sum_sizes_update_same:
  "map_of cs q = Some c \<Longrightarrow> size_n c' = size_n c \<Longrightarrow>
   sum_sizes (AList.update q c' cs) = sum_sizes cs"
  by (induction cs) (auto simp: sum_sizes_def split: if_splits)

lemma map_norm_update_same:
  "map_of cs q = Some c \<Longrightarrow> norm c' = norm c \<Longrightarrow>
   map (\<lambda>kc. (fst kc, norm (snd kc))) (AList.update q c' cs)
     = map (\<lambda>kc. (fst kc, norm (snd kc))) cs"
  by (induction cs) (auto split: if_splits)

lemma bubble_walk_Cons:
  "bubble (walk n (p # ps) k s) (p # ps) =
     (let c = (case map_of (ch n) p of
                 None \<Rightarrow> Node p (ps \<noteq> []) (if ps = [] then s else 0) (if ps = [] then k else []) []
               | Some c0 \<Rightarrow> if ps = [] then set_size_key s k c0 else c0);
          cs = AList.update p (bubble (walk c ps k s) ps) (ch n)
      in set_size (sum_sizes cs) (set_ch cs n))"
  by (simp add: Let_def update_conv' set_ch_def set_size_def)

lemma recalc_modify_Cons:
  "map_of (ch n) q = Some c \<Longrightarrow>
   recalc (modify n (q # qs) f) (q # qs) =
     (let n1 = set_ch (AList.update q (recalc (modify c qs f) qs) (ch n)) n
      in if dir n1 then set_size (sum_sizes (ch n1)) n1 else n1)"
  by (simp add: Let_def update_conv' set_ch_def set_size_def)

subsection \<open>The round trip\<close>

lemma norm_cong:
  "name a = name b \<Longrightarrow> dir a = dir b \<Longrightarrow> size_n a = size_n b \<Longrightarrow> key a = key b \<Longrightarrow>
   sort_key fst (map (\<lambda>kc. (fst kc, norm (snd kc))) (ch a))
     = sort_key fst (map (\<lambda>kc. (fst kc, norm (snd kc))) (ch b)) \<Longrightarrow>
   norm a = norm b"
  by (simp add: norm_eq [of a] norm_eq [of b])

lemma roundtrip_base:
  assumes wf: "wf P n" and l: "map_of (ch n) p = Some l" and leaf: "\<not> dir l" "ch l = []"
    and sum: "size_n n = sum_sizes (ch n)"
  shows "norm (bubble (walk (recalc (modify n [] (\<lambda>m. set_ch (AList.delete p (ch m)) m)) [])
            [p] (key l) (size_n l)) [p]) = norm n"
proof -
  let ?cs = "ch n"
  let ?cs' = "AList.delete p ?cs @ [(p, l)]"
  let ?m = "recalc (modify n [] (\<lambda>m. set_ch (AList.delete p (ch m)) m)) []"
  have d: "distinct (map fst ?cs)" using wf wf_iff [of P n] by simp
  have nm: "name l = p" using wf l wf_child by blast
  have leq: "Node p False (size_n l) (key l) [] = l"
    using nm leaf by (cases l) simp
  have m: "name ?m = name n" "dir ?m = dir n" "key ?m = key n" "ch ?m = AList.delete p ?cs"
    by simp_all
  have r: "bubble (walk ?m [p] (key l) (size_n l)) [p]
      = set_size (sum_sizes ?cs') (set_ch ?cs' ?m)"
    unfolding bubble_walk_Cons
    by (simp add: m map_of_delete_same update_absent leq Let_def
        del: recalc.simps modify.simps)
  have s: "sum_sizes ?cs' = size_n n" using sum d l by (simp add: sum_sizes_delete_readd)
  have "set ?cs' = set ?cs" using d l by (rule set_delete_readd)
  then have "set (map (\<lambda>kc. (fst kc, norm (snd kc))) ?cs')
      = set (map (\<lambda>kc. (fst kc, norm (snd kc))) ?cs)"
    by (simp only: set_map)
  moreover have "distinct (map fst (map (\<lambda>kc. (fst kc, norm (snd kc))) ?cs))"
    using d by (simp add: comp_def)
  moreover have "distinct (map fst ?cs')"
    using d by (auto simp: distinct_delete delete_notin_dom)
  then have "distinct (map fst (map (\<lambda>kc. (fst kc, norm (snd kc))) ?cs'))"
    by (simp add: comp_def)
  ultimately have "sort_key fst (map (\<lambda>kc. (fst kc, norm (snd kc))) ?cs')
      = sort_key fst (map (\<lambda>kc. (fst kc, norm (snd kc))) ?cs)"
    by (intro sort_key_fst_unique)
  then show ?thesis unfolding r using s
    by (intro norm_cong) (simp_all add: m name_modify dir_modify del: recalc.simps modify.simps)
qed

lemma roundtrip_aux:
  "wf P n \<Longrightarrow> get n qs = Some par \<Longrightarrow> map_of (ch par) p = Some l \<Longrightarrow> \<not> dir l \<Longrightarrow>
   ch l = [] \<Longrightarrow> sums_along n qs \<Longrightarrow>
   norm (bubble (walk (recalc (modify n qs (\<lambda>m. set_ch (AList.delete p (ch m)) m)) qs)
           (qs @ [p]) (key l) (size_n l)) (qs @ [p])) = norm n"
proof (induction qs arbitrary: n P)
  case Nil
  then show ?case using roundtrip_base [of P n p l] by simp
next
  case (Cons q qs)
  let ?f = "\<lambda>m. set_ch (AList.delete p (ch m)) m"
  obtain c where c: "map_of (ch n) q = Some c" "get c qs = Some par"
    using Cons.prems(2) by (auto split: option.splits)
  have wfc: "wf (P @ [q]) c" using Cons.prems(1) c wf_child by blast
  have sums: "size_n n = sum_sizes (ch n)" "sums_along c qs"
    using Cons.prems(6) c by simp_all
  let ?Dc = "recalc (modify c qs ?f) qs"
  let ?Ic = "bubble (walk ?Dc (qs @ [p]) (key l) (size_n l)) (qs @ [p])"
  have ih: "norm ?Ic = norm c"
    using Cons.IH [OF wfc c(2) Cons.prems(3,4,5) sums(2)] .
  let ?D = "recalc (modify n (q # qs) ?f) (q # qs)"
  have Deq: "?D = (let n1 = set_ch (AList.update q ?Dc (ch n)) n
                   in if dir n1 then set_size (sum_sizes (ch n1)) n1 else n1)"
    using c(1) by (rule recalc_modify_Cons)
  have D: "name ?D = name n" "dir ?D = dir n" "key ?D = key n"
    "ch ?D = AList.update q ?Dc (ch n)"
    by (subst Deq, simp add: Let_def del: recalc.simps modify.simps)+
  have q: "qs @ [p] \<noteq> []" by simp
  have r: "bubble (walk ?D ((q # qs) @ [p]) (key l) (size_n l)) ((q # qs) @ [p])
      = set_size (sum_sizes (AList.update q ?Ic (ch n)))
          (set_ch (AList.update q ?Ic (ch n)) ?D)"
    unfolding append_Cons bubble_walk_Cons
    by (simp add: D update_conv' Let_def del: recalc.simps modify.simps bubble.simps walk.simps)
  have sz: "size_n ?Ic = size_n c" using ih sel_norm(3) by metis
  have s: "sum_sizes (AList.update q ?Ic (ch n)) = size_n n"
    using sums(1) sum_sizes_update_same [OF c(1) sz] by simp
  have m: "map (\<lambda>kc. (fst kc, norm (snd kc))) (AList.update q ?Ic (ch n))
      = map (\<lambda>kc. (fst kc, norm (snd kc))) (ch n)"
    using c(1) ih by (rule map_norm_update_same)
  show ?case unfolding r using s m
    by (intro norm_cong)
      (simp_all add: D name_modify dir_modify
        del: recalc.simps modify.simps bubble.simps walk.simps)
qed

text \<open>
  C7. The round trip is broken where one key is a path prefix of another. After
  \<open>insert("a", 5)\<close>, \<open>insert("a/b", 3)\<close>, \<open>insert("a", 5)\<close> the object \<open>a\<close> has the child
  \<open>b\<close> and its own size 5 (the size invariant of directories holds: \<open>a\<close> is not one).
  Removing the leaf \<open>b\<close> leaves \<open>a\<close> at 5, since \<open>recalc\<close> skips what is not a directory;
  inserting \<open>a/b\<close> with size 3 again sets \<open>a\<close> and the root to 3, since the loop at the
  end of \<open>insert\<close> re-sums every ancestor, directory or not. The two trees differ in the
  sizes of \<open>a\<close> and of the root.
\<close>

theorem roundtrip_changes_sizes:
  "run [Insert ''a'' 5, Insert ''a/b'' 3, Insert ''a'' 5]
     = Node ''/'' True 5 [] [(''a'', Node ''a'' False 5 ''a'' [(''b'', Node ''b'' False 3 ''a/b'' [])])] \<and>
   sizes_ok (run [Insert ''a'' 5, Insert ''a/b'' 3, Insert ''a'' 5]) \<and>
   get (run [Insert ''a'' 5, Insert ''a/b'' 3, Insert ''a'' 5]) [''a'', ''b'']
     = Some (Node ''b'' False 3 ''a/b'' []) \<and>
   tree_insert (tree_remove (run [Insert ''a'' 5, Insert ''a/b'' 3, Insert ''a'' 5]) [''a'', ''b''])
       ''a/b'' 3
     = Node ''/'' True 3 [] [(''a'', Node ''a'' False 3 ''a'' [(''b'', Node ''b'' False 3 ''a/b'' [])])] \<and>
   \<not> same_tree
       (tree_insert (tree_remove (run [Insert ''a'' 5, Insert ''a/b'' 3, Insert ''a'' 5]) [''a'', ''b''])
          ''a/b'' 3)
       (run [Insert ''a'' 5, Insert ''a/b'' 3, Insert ''a'' 5])"
proof -
  have t: "run [Insert ''a'' 5, Insert ''a/b'' 3, Insert ''a'' 5]
     = Node ''/'' True 5 [] [(''a'', Node ''a'' False 5 ''a'' [(''b'', Node ''b'' False 3 ''a/b'' [])])]"
    by (simp add: run_def tree_insert_def parts_of_def empty_tree_def set_ch_def set_size_def
        set_size_key_def sum_sizes_def)
  have r: "tree_insert (tree_remove (Node ''/'' True 5 []
        [(''a'', Node ''a'' False 5 ''a'' [(''b'', Node ''b'' False 3 ''a/b'' [])])]) [''a'', ''b''])
       ''a/b'' 3
     = Node ''/'' True 3 [] [(''a'', Node ''a'' False 3 ''a'' [(''b'', Node ''b'' False 3 ''a/b'' [])])]"
    by (simp add: tree_remove_def tree_insert_def parts_of_def set_ch_def set_size_def
        set_size_key_def sum_sizes_def)
  show ?thesis unfolding t r by (simp add: same_tree_def sum_sizes_def)
qed

text \<open>
  Where the round trip holds. In every tree reached from the empty tree by the
  operations, for every node that is not a directory and has no children, and whose
  parent and further ancestors all have the sum of their children's sizes as size:
  \<open>remove(node)\<close> followed by \<open>insert(node.key, node.size)\<close> gives the tree before the
  removal, up to the order of children (the node is now the last child of its parent).
\<close>

lemma remove_insert_roundtrip:
  "get (run ops) pth = Some l \<Longrightarrow> \<not> dir l \<Longrightarrow> ch l = [] \<Longrightarrow>
   sums_along (run ops) (butlast pth) \<Longrightarrow>
   same_tree (tree_insert (tree_remove (run ops) pth) (key l) (size_n l)) (run ops)"
proof -
  assume g: "get (run ops) pth = Some l" and leaf: "\<not> dir l" "ch l = []"
    and sums: "sums_along (run ops) (butlast pth)"
  let ?t = "run ops"
  have wf: "wf [] ?t" and dt: "dir ?t" using wf_run by simp_all
  have ne: "pth \<noteq> []" using g leaf dt by auto
  then have pth: "pth = butlast pth @ [last pth]" by simp
  obtain par where par: "get ?t (butlast pth) = Some par" "map_of (ch par) (last pth) = Some l"
    using g get_snoc [of ?t "butlast pth" "last pth"] pth by (auto split: option.splits)
  have "wf ([] @ pth) l" using wf g by (rule wf_get)
  then have parts: "parts_of (key l) = pth" using leaf wf_iff [of pth l] by simp
  have rm: "tree_remove ?t pth
      = recalc (modify ?t (butlast pth) (\<lambda>m. set_ch (AList.delete (last pth) (ch m)) m))
          (butlast pth)"
    using ne par by (simp add: tree_remove_def)
  have "norm (bubble (walk (tree_remove ?t pth) (butlast pth @ [last pth]) (key l) (size_n l))
          (butlast pth @ [last pth])) = norm ?t"
    unfolding rm using wf par leaf sums by (rule roundtrip_aux)
  then show ?thesis using parts pth by (simp add: same_tree_def tree_insert_def Let_def)
qed

lemma remove_insert_roundtrip_example:
  "get (run [Insert ''a/x'' 1, Insert ''a/y'' 2]) [''a'', ''x''] = Some (Node ''x'' False 1 ''a/x'' []) \<and>
   sums_along (run [Insert ''a/x'' 1, Insert ''a/y'' 2]) [''a''] \<and>
   run [Insert ''a/x'' 1, Insert ''a/y'' 2]
     = Node ''/'' True 3 []
         [(''a'', Node ''a'' True 3 []
            [(''x'', Node ''x'' False 1 ''a/x'' []), (''y'', Node ''y'' False 2 ''a/y'' [])])] \<and>
   tree_insert (tree_remove (run [Insert ''a/x'' 1, Insert ''a/y'' 2]) [''a'', ''x'']) ''a/x'' 1
     = Node ''/'' True 3 []
         [(''a'', Node ''a'' True 3 []
            [(''y'', Node ''y'' False 2 ''a/y'' []), (''x'', Node ''x'' False 1 ''a/x'' [])])] \<and>
   same_tree
     (tree_insert (tree_remove (run [Insert ''a/x'' 1, Insert ''a/y'' 2]) [''a'', ''x'']) ''a/x'' 1)
     (run [Insert ''a/x'' 1, Insert ''a/y'' 2])"
proof -
  let ?t = "Node ''/'' True 3 []
         [(''a'', Node ''a'' True 3 []
            [(''x'', Node ''x'' False 1 ''a/x'' []), (''y'', Node ''y'' False 2 ''a/y'' [])])]"
  have t: "run [Insert ''a/x'' 1, Insert ''a/y'' 2] = ?t"
    by (simp add: run_def tree_insert_def parts_of_def empty_tree_def set_ch_def set_size_def
        set_size_key_def sum_sizes_def)
  have g: "get (run [Insert ''a/x'' 1, Insert ''a/y'' 2]) [''a'', ''x'']
      = Some (Node ''x'' False 1 ''a/x'' [])"
    by (simp add: t)
  have s: "sums_along (run [Insert ''a/x'' 1, Insert ''a/y'' 2]) (butlast [''a'', ''x''])"
    by (simp add: t sum_sizes_def)
  have r: "tree_insert (tree_remove ?t [''a'', ''x'']) ''a/x'' 1
     = Node ''/'' True 3 []
         [(''a'', Node ''a'' True 3 []
            [(''y'', Node ''y'' False 2 ''a/y'' []), (''x'', Node ''x'' False 1 ''a/x'' [])])]"
    by (simp add: tree_remove_def tree_insert_def parts_of_def set_ch_def set_size_def
        set_size_key_def sum_sizes_def)
  have "same_tree
     (tree_insert (tree_remove (run [Insert ''a/x'' 1, Insert ''a/y'' 2]) [''a'', ''x''])
        (key (Node ''x'' False 1 ''a/x'' [])) (size_n (Node ''x'' False 1 ''a/x'' [])))
     (run [Insert ''a/x'' 1, Insert ''a/y'' 2])"
    using g _ _ s by (rule remove_insert_roundtrip) simp_all
  then show ?thesis using g s r t by simp
qed

section \<open>Properties of the size invariant\<close>

text \<open>
  Every remove keeps the invariant, and so does every insert whose key does not lead
  to an existing directory.
\<close>

lemma sizes_ok_iff:
  "sizes_ok n = ((dir n \<longrightarrow> size_n n = sum_sizes (ch n)) \<and> (\<forall>kc\<in>set (ch n). sizes_ok (snd kc)))"
  by (cases n) (simp add: list_all_iff)

lemma sizes_ok_child: "sizes_ok n \<Longrightarrow> map_of (ch n) p = Some c \<Longrightarrow> sizes_ok c"
proof -
  assume n: "sizes_ok n" and m: "map_of (ch n) p = Some c"
  from m have "(p, c) \<in> set (ch n)" by (rule map_of_SomeD)
  with n sizes_ok_iff [of n] have "sizes_ok (snd (p, c))" by blast
  then show "sizes_ok c" by simp
qed

lemma sizes_ok_children_update:
  assumes "sizes_ok n" and "sizes_ok c"
  shows "\<forall>kc\<in>set (AList.update p c (ch n)). sizes_ok (snd kc)"
proof
  fix kc assume "kc \<in> set (AList.update p c (ch n))"
  then have "kc = (p, c) \<or> kc \<in> set (ch n)" using set_update_subset by fastforce
  then show "sizes_ok (snd kc)" using assms sizes_ok_iff [of n] by auto
qed

lemma sizes_ok_resum:
  "\<forall>kc\<in>set cs. sizes_ok (snd kc) \<Longrightarrow> sizes_ok (set_size (sum_sizes cs) (set_ch cs n))"
  by (simp add: sizes_ok_iff [of "set_size (sum_sizes cs) (set_ch cs n)"])

lemma sizes_ok_recalc0:
  "\<forall>kc\<in>set cs. sizes_ok (snd kc) \<Longrightarrow>
   sizes_ok (if dir (set_ch cs n) then set_size (sum_sizes (ch (set_ch cs n))) (set_ch cs n)
             else set_ch cs n)"
  by (simp add: sizes_ok_iff [of "set_size (sum_sizes cs) (set_ch cs n)"]
      sizes_ok_iff [of "set_ch cs n"])

lemma sizes_ok_bubble_walk:
  "sizes_ok n \<Longrightarrow> ps \<noteq> [] \<Longrightarrow> (case get n ps of None \<Rightarrow> True | Some m \<Rightarrow> \<not> dir m) \<Longrightarrow>
   sizes_ok (bubble (walk n ps k s) ps)"
proof (induction ps arbitrary: n)
  case Nil
  then show ?case by simp
next
  case (Cons p ps)
  let ?c = "(case map_of (ch n) p of
                 None \<Rightarrow> Node p (ps \<noteq> []) (if ps = [] then s else 0) (if ps = [] then k else []) []
               | Some c0 \<Rightarrow> if ps = [] then set_size_key s k c0 else c0)"
  have x: "sizes_ok (bubble (walk ?c ps k s) ps)"
  proof (cases "ps = []")
    case True
    show ?thesis
    proof (cases "map_of (ch n) p")
      case None
      then show ?thesis using True by (simp add: sum_sizes_def)
    next
      case (Some c0)
      then have "sizes_ok c0" "\<not> dir c0" using Cons.prems True sizes_ok_child by auto
      then show ?thesis using Some True
        by (simp add: sizes_ok_iff [of "set_size_key s k c0"] sizes_ok_iff [of c0])
    qed
  next
    case False
    have "sizes_ok ?c \<and> (case get ?c ps of None \<Rightarrow> True | Some m \<Rightarrow> \<not> dir m)"
    proof (cases "map_of (ch n) p")
      case None
      then show ?thesis using False by (cases ps) (simp_all add: sum_sizes_def)
    next
      case (Some c0)
      then show ?thesis using Cons.prems False sizes_ok_child by auto
    qed
    then show ?thesis using Cons.IH False by blast
  qed
  show ?case
    unfolding bubble_walk_Cons Let_def
    by (intro sizes_ok_resum sizes_ok_children_update Cons.prems(1) x)
qed

lemma sizes_ok_insert:
  "sizes_ok t \<Longrightarrow> \<not> ends_at_directory t k \<Longrightarrow> sizes_ok (tree_insert t k s)"
  by (cases "parts_of k = []")
    (auto simp: tree_insert_def Let_def ends_at_directory_def
      intro!: sizes_ok_bubble_walk split: option.splits)

lemma sizes_ok_recalc_modify:
  "sizes_ok n \<Longrightarrow>
   sizes_ok (recalc (modify n qs (\<lambda>m. set_ch (AList.delete p (ch m)) m)) qs)"
proof (induction qs arbitrary: n)
  case Nil
  have "\<forall>kc\<in>set (AList.delete p (ch n)). sizes_ok (snd kc)"
    using Nil sizes_ok_iff [of n] set_delete_subset [of p "ch n"] by blast
  then show ?case using sizes_ok_recalc0 [of "AList.delete p (ch n)" n] by simp
next
  case (Cons q qs)
  show ?case
  proof (cases "map_of (ch n) q")
    case None
    then show ?thesis using Cons.prems by simp
  next
    case (Some c)
    let ?x = "recalc (modify c qs (\<lambda>m. set_ch (AList.delete p (ch m)) m)) qs"
    have "sizes_ok ?x" using Cons.IH Cons.prems Some sizes_ok_child by blast
    then have "\<forall>kc\<in>set (AList.update q ?x (ch n)). sizes_ok (snd kc)"
      using Cons.prems by (intro sizes_ok_children_update)
    then show ?thesis
      unfolding recalc_modify_Cons [OF Some] Let_def
      using sizes_ok_recalc0 [of "AList.update q ?x (ch n)" n] by simp
  qed
qed

lemma sizes_ok_remove: "sizes_ok t \<Longrightarrow> sizes_ok (tree_remove t pth)"
  by (simp add: tree_remove_def sizes_ok_recalc_modify split: option.splits)

lemma sizes_ok_recalc: "sizes_ok n \<Longrightarrow> sizes_ok (recalc n qs)"
proof (induction qs arbitrary: n)
  case Nil
  show ?case using Nil
    by (simp add: sizes_ok_iff [of "set_size (sum_sizes (ch n)) n"] sizes_ok_iff [of n]
        set_size_def list_all_iff)
next
  case (Cons q qs)
  show ?case
  proof (cases "map_of (ch n) q")
    case None
    then show ?thesis using Cons.prems by simp
  next
    case (Some c)
    have "sizes_ok (recalc c qs)" using Cons.IH Cons.prems Some sizes_ok_child by blast
    then have "\<forall>kc\<in>set (AList.update q (recalc c qs) (ch n)). sizes_ok (snd kc)"
      using Cons.prems by (intro sizes_ok_children_update)
    then show ?thesis
      using Some sizes_ok_recalc0 [of "AList.update q (recalc c qs) (ch n)" n]
      by (simp add: Let_def)
  qed
qed

text \<open>
  C1. The invariant holds after \<open>insert("a/b", 3)\<close> and is broken by a following
  \<open>insert("a", 5)\<close>: the key leads to the existing directory \<open>a\<close>, whose size and key the
  overwrite branch of the first loop replaces, and the second loop starts at the parent
  of that node, so the directory keeps size 5 over children that sum to 3.
\<close>

theorem insert_overwrites_directory_size:
  "sizes_ok (run [Insert ''a/b'' 3]) \<and>
   run [Insert ''a/b'' 3, Insert ''a'' 5]
     = Node ''/'' True 5 [] [(''a'', Node ''a'' True 5 ''a'' [(''b'', Node ''b'' False 3 ''a/b'' [])])] \<and>
   sum_sizes (ch (Node ''a'' True 5 ''a'' [(''b'', Node ''b'' False 3 ''a/b'' [])])) = 3 \<and>
   \<not> sizes_ok (run [Insert ''a/b'' 3, Insert ''a'' 5])"
  by (simp add: run_def tree_insert_def parts_of_def empty_tree_def set_ch_def set_size_def
      set_size_key_def sum_sizes_def)

section \<open>The large directory as a tree of the program\<close>

text \<open>
  The tree \<open>big_tree (n + 1)\<close> used above is the tree the program builds by inserting
  the keys \<open>d/f0\<close>, ..., \<open>d/fn\<close>, each with size 1, into the empty tree.
\<close>

lemma digit_in: "m < 10 \<Longrightarrow> ''0123456789'' ! m \<in> set ''0123456789''"
  by (rule nth_mem) simp

lemma dec_digits: "set (dec n) \<subseteq> set ''0123456789''"
proof (induction n rule: dec.induct)
  case (1 n)
  show ?case
  proof (cases "n < 10")
    case True
    then show ?thesis using digit_in [of n] by (subst dec.simps) simp
  next
    case False
    have "n mod 10 < 10" by simp
    then have "''0123456789'' ! (n mod 10) \<in> set ''0123456789''" by (rule digit_in)
    then show ?thesis using False 1 by (subst dec.simps) simp
  qed
qed

lemma dec_nonempty: "dec n \<noteq> []"
  by (subst dec.simps) simp

lemma digit_inj: "i < 10 \<Longrightarrow> j < 10 \<Longrightarrow> ''0123456789'' ! i = ''0123456789'' ! j \<Longrightarrow> i = j"
proof -
  have "distinct ''0123456789''" by simp
  moreover assume "i < 10" "j < 10" "''0123456789'' ! i = ''0123456789'' ! j"
  ultimately show "i = j" by (simp add: nth_eq_iff_index_eq)
qed

lemma dec_inj: "dec n = dec m \<Longrightarrow> n = m"
proof (induction n arbitrary: m rule: dec.induct)
  case (1 n)
  show ?case
  proof (cases "n < 10")
    case n: True
    show ?thesis
    proof (cases "m < 10")
      case True
      then show ?thesis using n "1.prems" digit_inj [of n m]
        by (simp add: dec.simps [of n] dec.simps [of m])
    next
      case False
      then show ?thesis using n "1.prems" dec_nonempty [of "m div 10"]
        by (simp add: dec.simps [of n] dec.simps [of m])
    qed
  next
    case n: False
    show ?thesis
    proof (cases "m < 10")
      case True
      then show ?thesis using n "1.prems" dec_nonempty [of "n div 10"]
        by (simp add: dec.simps [of n] dec.simps [of m])
    next
      case False
      then have e: "dec (n div 10) = dec (m div 10)"
        "''0123456789'' ! (n mod 10) = ''0123456789'' ! (m mod 10)"
        using n "1.prems" by (simp_all add: dec.simps [of n] dec.simps [of m])
      have "n div 10 = m div 10" using "1.IH" n e(1) by blast
      moreover have "n mod 10 = m mod 10" using e(2) by (intro digit_inj) simp_all
      ultimately show ?thesis by (metis div_mult_mod_eq)
    qed
  qed
qed

lemma split_on_no_delim: "d \<notin> set w \<Longrightarrow> split_on d w = [w]"
  by (induction w) auto

lemma parts_of_big_key: "parts_of (''d/f'' @ dec n) = [''d'', ''f'' @ dec n]"
proof -
  have "CHR ''/'' \<notin> set (''f'' @ dec n)" using dec_digits [of n] by auto
  then have "split_on CHR ''/'' (''f'' @ dec n) = [''f'' @ dec n]" by (rule split_on_no_delim)
  then show ?thesis by (simp add: parts_of_def)
qed

lemma sum_sizes_big_leaves: "sum_sizes (map big_leaf xs) = int (length xs)"
  by (induction xs) (simp_all add: sum_sizes_def big_leaf_def)

lemma map_of_big_leaves_new: "map_of (map big_leaf [0..<n]) (''f'' @ dec n) = None"
proof -
  have "''f'' @ dec n \<notin> fst ` set (map big_leaf [0..<n])"
  proof
    assume "''f'' @ dec n \<in> fst ` set (map big_leaf [0..<n])"
    then obtain i where "i < n" "''f'' @ dec i = ''f'' @ dec n" by (auto simp: big_leaf_def)
    then show False using dec_inj [of i n] by simp
  qed
  then show ?thesis by (simp add: map_of_eq_None_iff)
qed

lemma insert_big_tree:
  "tree_insert (big_tree n) (''d/f'' @ dec n) 1 = big_tree (Suc n)"
proof -
  have u: "AList.update (''f'' @ dec n) (snd (big_leaf n)) (map big_leaf [0..<n])
      = map big_leaf [0..<Suc n]"
    using update_absent [OF map_of_big_leaves_new, of n "snd (big_leaf n)"]
    by (simp add: big_leaf_def)
  have l: "Node (''f'' @ dec n) False 1 (''d/f'' @ dec n) [] = snd (big_leaf n)"
    by (simp add: big_leaf_def)
  have w: "walk (big_dir n) [''f'' @ dec n] (''d/f'' @ dec n) 1
      = Node ''d'' True (int n) [] (map big_leaf [0..<Suc n])"
    using u
    by (simp add: big_dir_def map_of_big_leaves_new [simplified] Let_def l [simplified]
        set_ch_def)
  have b: "bubble (Node ''d'' True (int n) [] (map big_leaf [0..<Suc n])) [''f'' @ dec n]
      = big_dir (Suc n)"
  proof -
    have m: "map_of (map big_leaf [0..<Suc n]) (''f'' @ dec n) = Some (snd (big_leaf n))"
      unfolding u [symmetric] by (simp add: update_conv')
    then have t: "AList.update (''f'' @ dec n) (snd (big_leaf n)) (map big_leaf [0..<Suc n])
        = map big_leaf [0..<Suc n]"
      by (rule update_triv)
    show ?thesis
      using m t sum_sizes_big_leaves [of "[0..<Suc n]"]
      by (simp add: big_dir_def set_size_def set_ch_def Let_def del: upt_Suc)
  qed
  show ?thesis
    unfolding tree_insert_def parts_of_big_key Let_def
    using w b
    by (simp add: big_tree_def Let_def set_size_def set_ch_def sum_sizes_def big_dir_sel)
qed

lemma big_tree_reached:
  "run (map (\<lambda>i. Insert (''d/f'' @ dec i) 1) [0..<Suc n]) = big_tree (Suc n)"
proof (induction n)
  case 0
  have "dec 0 = ''0''" by (simp add: dec.simps)
  then show ?case
    by (simp add: run_def tree_insert_def parts_of_def empty_tree_def set_ch_def set_size_def
        sum_sizes_def big_tree_def big_dir_def big_leaf_def)
next
  case (Suc n)
  have "run (map (\<lambda>i. Insert (''d/f'' @ dec i) 1) [0..<Suc (Suc n)])
      = tree_insert (run (map (\<lambda>i. Insert (''d/f'' @ dec i) 1) [0..<Suc n]))
          (''d/f'' @ dec (Suc n)) 1"
    by (simp add: run_def)
  then show ?case using Suc insert_big_tree [of "Suc n"] by simp
qed

section \<open>A directory whose objects lie below an object\<close>

text \<open>
  The tree \<open>deep_tree n\<close> is the tree the program builds by inserting \<open>d/x\<close> and then
  \<open>d/x/f0\<close>, ..., each of the latter with size 1, into the empty tree.
\<close>

lemma parts_of_deep_key: "parts_of (''d/x/f'' @ dec n) = [''d'', ''x'', ''f'' @ dec n]"
proof -
  have "CHR ''/'' \<notin> set (''f'' @ dec n)" using dec_digits [of n] by auto
  then have "split_on CHR ''/'' (''f'' @ dec n) = [''f'' @ dec n]" by (rule split_on_no_delim)
  then show ?thesis by (simp add: parts_of_def)
qed

lemma sum_sizes_deep_leaves: "sum_sizes (map deep_leaf xs) = int (length xs)"
  by (induction xs) (simp_all add: sum_sizes_def deep_leaf_def)

lemma map_of_deep_leaves_new: "map_of (map deep_leaf [0..<n]) (''f'' @ dec n) = None"
proof -
  have "''f'' @ dec n \<notin> fst ` set (map deep_leaf [0..<n])"
  proof
    assume "''f'' @ dec n \<in> fst ` set (map deep_leaf [0..<n])"
    then obtain i where "i < n" "''f'' @ dec i = ''f'' @ dec n" by (auto simp: deep_leaf_def)
    then show False using dec_inj [of i n] by simp
  qed
  then show ?thesis by (simp add: map_of_eq_None_iff)
qed

lemma insert_deep_obj:
  "bubble (walk (deep_obj n) [''f'' @ dec n] (''d/x/f'' @ dec n) 1) [''f'' @ dec n]
     = deep_obj (Suc n)"
proof -
  have u: "AList.update (''f'' @ dec n) (snd (deep_leaf n)) (map deep_leaf [0..<n])
      = map deep_leaf [0..<Suc n]"
    using update_absent [OF map_of_deep_leaves_new, of n "snd (deep_leaf n)"]
    by (simp add: deep_leaf_def)
  have l: "Node (''f'' @ dec n) False 1 (''d/x/f'' @ dec n) [] = snd (deep_leaf n)"
    by (simp add: deep_leaf_def)
  have w: "walk (deep_obj n) [''f'' @ dec n] (''d/x/f'' @ dec n) 1
      = Node ''x'' False (int n) ''d/x'' (map deep_leaf [0..<Suc n])"
    using u
    by (simp add: deep_obj_def map_of_deep_leaves_new [simplified] Let_def l [simplified]
        set_ch_def)
  have b: "bubble (Node ''x'' False (int n) ''d/x'' (map deep_leaf [0..<Suc n])) [''f'' @ dec n]
      = deep_obj (Suc n)"
  proof -
    have m: "map_of (map deep_leaf [0..<Suc n]) (''f'' @ dec n) = Some (snd (deep_leaf n))"
      unfolding u [symmetric] by (simp add: update_conv')
    then have t: "AList.update (''f'' @ dec n) (snd (deep_leaf n)) (map deep_leaf [0..<Suc n])
        = map deep_leaf [0..<Suc n]"
      by (rule update_triv)
    show ?thesis
      using m t sum_sizes_deep_leaves [of "[0..<Suc n]"]
      by (simp add: deep_obj_def set_size_def set_ch_def Let_def del: upt_Suc)
  qed
  show ?thesis unfolding w b ..
qed

lemma deep_obj_sel: "name (deep_obj n) = ''x''" "\<not> dir (deep_obj n)" "size_n (deep_obj n) = int n"
  "key (deep_obj n) = ''d/x''"
  by (simp_all add: deep_obj_def)

lemma deep_dir_sel: "name (deep_dir n) = ''d''" "dir (deep_dir n)" "size_n (deep_dir n) = int n"
  by (simp_all add: deep_dir_def)

lemma bubble_walk_step:
  "map_of (ch n) p = Some c \<Longrightarrow> ps \<noteq> [] \<Longrightarrow>
   bubble (walk n (p # ps) k s) (p # ps) =
     (let cs = AList.update p (bubble (walk c ps k s) ps) (ch n)
      in set_size (sum_sizes cs) (set_ch cs n))"
  unfolding bubble_walk_Cons by (simp del: bubble.simps walk.simps)

lemma insert_deep_tree:
  "tree_insert (deep_tree n) (''d/x/f'' @ dec n) 1 = deep_tree (Suc n)"
proof -
  let ?f = "''f'' @ dec n" and ?k = "''d/x/f'' @ dec n"
  have x1: "bubble (walk (deep_dir n) [''x'', ?f] ?k 1) [''x'', ?f] =
      (let cs = AList.update ''x'' (bubble (walk (deep_obj n) [?f] ?k 1) [?f]) (ch (deep_dir n))
       in set_size (sum_sizes cs) (set_ch cs (deep_dir n)))"
    by (rule bubble_walk_step) (simp_all add: deep_dir_def)
  have x2: "(let cs = AList.update ''x'' (deep_obj (Suc n)) (ch (deep_dir n))
       in set_size (sum_sizes cs) (set_ch cs (deep_dir n))) = deep_dir (Suc n)"
    by (simp add: deep_dir_def Let_def set_size_def set_ch_def sum_sizes_def deep_obj_sel)
  have x: "bubble (walk (deep_dir n) [''x'', ?f] ?k 1) [''x'', ?f] = deep_dir (Suc n)"
    unfolding x1 insert_deep_obj by (rule x2)
  have d1: "bubble (walk (deep_tree n) [''d'', ''x'', ?f] ?k 1) [''d'', ''x'', ?f] =
      (let cs = AList.update ''d'' (bubble (walk (deep_dir n) [''x'', ?f] ?k 1) [''x'', ?f])
                  (ch (deep_tree n))
       in set_size (sum_sizes cs) (set_ch cs (deep_tree n)))"
    by (rule bubble_walk_step) (simp_all add: deep_tree_def)
  have d2: "(let cs = AList.update ''d'' (deep_dir (Suc n)) (ch (deep_tree n))
       in set_size (sum_sizes cs) (set_ch cs (deep_tree n))) = deep_tree (Suc n)"
    by (simp add: deep_tree_def Let_def set_size_def set_ch_def sum_sizes_def deep_dir_sel)
  have d: "bubble (walk (deep_tree n) [''d'', ''x'', ?f] ?k 1) [''d'', ''x'', ?f]
      = deep_tree (Suc n)"
    unfolding d1 x by (rule d2)
  show ?thesis
    unfolding tree_insert_def parts_of_deep_key Let_def by (rule d)
qed

lemma deep_tree_reached:
  "run (Insert ''d/x'' 0 # map (\<lambda>i. Insert (''d/x/f'' @ dec i) 1) [0..<n]) = deep_tree n"
proof (induction n)
  case 0
  show ?case
    by (simp add: run_def tree_insert_def parts_of_def empty_tree_def set_ch_def set_size_def
        sum_sizes_def deep_tree_def deep_dir_def deep_obj_def)
next
  case (Suc n)
  have "run (Insert ''d/x'' 0 # map (\<lambda>i. Insert (''d/x/f'' @ dec i) 1) [0..<Suc n])
      = tree_insert (run (Insert ''d/x'' 0 # map (\<lambda>i. Insert (''d/x/f'' @ dec i) 1) [0..<n]))
          (''d/x/f'' @ dec n) 1"
    by (simp add: run_def)
  then show ?case using Suc insert_deep_tree [of n] by simp
qed

lemma leaf_nodes_deep_leaves:
  "sum_list (map ((\<lambda>kc. leaf_nodes (snd kc)) \<circ> deep_leaf) xs) = length xs"
  by (induction xs) (simp_all add: deep_leaf_def)

lemma leaf_nodes_deep_dir: "0 < n \<Longrightarrow> leaf_nodes (deep_dir n) = n"
  by (simp add: deep_dir_def deep_obj_def leaf_nodes_deep_leaves)

lemma all_keys_deep_dir: "all_keys (deep_dir n) = [''d/x'']"
  by (simp add: deep_dir_def deep_obj_def)

lemma count_deep_dir: "count (deep_dir n) = 1"
  by (simp add: deep_dir_def deep_obj_def)

lemma deep_confirming_eq:
  "deep_confirming =
     \<lparr>ftree = deep_tree 2500, s3_client = \<lparr>answers = always_ok, calls = []\<rparr>, cwd = [],
      sort_by = ''size'', items = [[''d'']], confirm_node = Some [''d''], cursor_row = 0,
      status = Ask_delete ''d/'' 1 2500, running = True\<rparr>"
  by (simp add: deep_confirming_def init_ui_def refresh_def update_status_def sorted_nodes_def
      BINDINGS_def action_delete_def cancel_confirm_def sel_def deep_tree_def deep_dir_sel
      count_deep_dir)

text \<open>
  C5. The batches are cut from \<open>all_keys(node)\<close>, and \<open>all_keys\<close> stops at a node that is
  not a directory. After \<open>insert("d/x", 0)\<close> and \<open>insert("d/x/f0", 1)\<close>, ...,
  \<open>insert("d/x/f2499", 1)\<close> the directory \<open>d\<close> has exactly 2500 leaves, all of them
  below the object \<open>d/x\<close>. The question in the status line is for 1 object of 2500
  bytes. Confirming the deletion of \<open>d\<close> issues one call, with the one key \<open>d/x\<close>, and
  not three batches of 1000, 1000 and 500 keys; every call returns, and \<open>d\<close> with all its
  leaves is taken out of the tree.
\<close>

theorem delete_misses_keys_below_object:
  "run (Insert ''d/x'' 0 # map (\<lambda>i. Insert (''d/x/f'' @ dec i) 1) [0..<2500]) = deep_tree 2500 \<and>
   get (deep_tree 2500) [''d''] = Some (deep_dir 2500) \<and>
   dir (deep_dir 2500) \<and>
   leaf_nodes (deep_dir 2500) = 2500 \<and>
   all_keys (deep_dir 2500) = [''d/x''] \<and>
   confirm_node deep_confirming = Some [''d''] \<and>
   ftree deep_confirming = deep_tree 2500 \<and>
   status deep_confirming = Ask_delete ''d/'' 1 2500 \<and>
   fst (action_confirm_yes ascii_lower deep_confirming) = None \<and>
   calls (s3_client (snd (action_confirm_yes ascii_lower deep_confirming))) = [[''d/x'']] \<and>
   ftree (snd (action_confirm_yes ascii_lower deep_confirming)) = Node ''/'' True 0 [] []"
proof -
  have c: "confirm_node deep_confirming = Some [''d'']"
    by (simp add: deep_confirming_eq)
  have g: "get (ftree deep_confirming) [''d''] = Some (deep_dir 2500)"
    by (simp add: deep_confirming_eq deep_tree_def)
  have i: "issue (s3_client deep_confirming) (batches_of 1000 (all_keys (deep_dir 2500)))
      = (None, \<lparr>answers = always_ok, calls = [[''d/x'']]\<rparr>)"
    by (simp add: deep_confirming_eq all_keys_deep_dir batches_of_step delete_objects_def
        always_ok_def)
  have r: "tree_remove (ftree deep_confirming) [''d''] = Node ''/'' True 0 [] []"
    by (simp add: deep_confirming_eq deep_tree_def tree_remove_def set_ch_def set_size_def
        sum_sizes_def)
  have y: "fst (action_confirm_yes ascii_lower deep_confirming) = None \<and>
      calls (s3_client (snd (action_confirm_yes ascii_lower deep_confirming))) = [[''d/x'']] \<and>
      ftree (snd (action_confirm_yes ascii_lower deep_confirming)) = Node ''/'' True 0 [] []"
    unfolding confirm_yes_issue [OF c g] using i r by (simp add: Let_def)
  show ?thesis
    using deep_tree_reached [of 2500] leaf_nodes_deep_dir [of 2500] c y
    by (simp add: all_keys_deep_dir deep_dir_sel deep_confirming_eq)
      (simp add: deep_tree_def)
qed

end
